theory Spec2Isabelle
  imports Complex_Main "HOL-Library.Sublist" "HOL-Library.Multiset" "HOL-Library.Log_Nat"
    "HOL-Library.Product_Lexorder" "HOL-Library.List_Lexorder" "HOL-Library.Char_ord"
begin

section \<open>Python strings\<close>

text \<open>
  A Python \<open>str\<close> is modelled as a \<open>string\<close>; one \<open>char\<close> stands for one code point
  below 256, so \<open>length\<close> is Python's \<open>len\<close> on such text.
\<close>

definition nl :: char where
  "nl = CHR 0x0A"

text \<open>The characters \<open>str.strip()\<close> removes (those with \<open>str.isspace\<close>), below 256.\<close>

definition is_space :: "char \<Rightarrow> bool" where
  "is_space c =
     (let n = (of_char c :: nat)
      in (9 \<le> n \<and> n \<le> 13) \<or> (28 \<le> n \<and> n \<le> 32) \<or> n = 133 \<or> n = 160)"

definition lstrip :: "string \<Rightarrow> string" where
  "lstrip s = dropWhile is_space s"

definition rstrip :: "string \<Rightarrow> string" where
  "rstrip s = rev (dropWhile is_space (rev s))"

definition strip :: "string \<Rightarrow> string" where
  "strip s = rstrip (lstrip s)"

text \<open>\<open>s.split(sep)\<close> for a one-character separator: never an empty list.\<close>

fun split_on :: "char \<Rightarrow> string \<Rightarrow> string list" where
  "split_on sep [] = [[]]"
| "split_on sep (c # cs) =
     (if c = sep then [] # split_on sep cs
      else (case split_on sep cs of
              [] \<Rightarrow> [[c]]
            | p # ps \<Rightarrow> (c # p) # ps))"

text \<open>\<open>sep.join(parts)\<close>.\<close>

fun join :: "string \<Rightarrow> string list \<Rightarrow> string" where
  "join sep [] = []"
| "join sep [x] = x"
| "join sep (x # y # ys) = x @ sep @ join sep (y # ys)"

section \<open>scraper.py: split_dom_content\<close>

text \<open>
  The loop of \<open>split_dom_content\<close> over the paragraphs, with the list \<open>chunks\<close> and the
  string \<open>current_chunk\<close> passed as state.
\<close>

fun chunk_loop :: "int \<Rightarrow> string list \<Rightarrow> string list \<Rightarrow> string \<Rightarrow> string list \<times> string" where
  "chunk_loop max_chars [] chunks current_chunk = (chunks, current_chunk)"
| "chunk_loop max_chars (paragraph # rest) chunks current_chunk =
     (if int (length current_chunk) + int (length paragraph) + 1 > max_chars
      then chunk_loop max_chars rest (chunks @ [strip current_chunk]) paragraph
      else chunk_loop max_chars rest chunks (current_chunk @ [nl] @ paragraph))"

definition split_dom_content :: "string \<Rightarrow> int \<Rightarrow> string list" where
  "split_dom_content content max_chars =
     (case chunk_loop max_chars (split_on nl content) [] [] of
        (chunks, current_chunk) \<Rightarrow>
          if current_chunk \<noteq> [] then chunks @ [strip current_chunk] else chunks)"

text \<open>A line that is not empty and neither begins nor ends with whitespace.\<close>

definition trimmed :: "string \<Rightarrow> bool" where
  "trimmed p = (p \<noteq> [] \<and> \<not> is_space (hd p) \<and> \<not> is_space (last p))"

text \<open>
  The state of \<open>current_chunk\<close> between two iterations: whitespace, then a trimmed body.
\<close>

definition padded :: "string \<Rightarrow> bool" where
  "padded cur = (\<exists>ws b. cur = ws @ b \<and> (\<forall>c\<in>set ws. is_space c) \<and> trimmed b)"

text \<open>
  What C6 allows of a chunk \<open>c\<close> of a text with the lines \<open>ls\<close>: at most \<open>m\<close> characters,
  or one over-long line, stripped.
\<close>

definition fits :: "string list \<Rightarrow> int \<Rightarrow> string \<Rightarrow> bool" where
  "fits ls m c = (int (length c) \<le> m \<or> (\<exists>p\<in>set ls. m < int (length p) \<and> c = strip p))"

section \<open>Python values\<close>

text \<open>
  A Python \<open>float\<close> is a double: its value when it is finite (a rational; \<open>Float 0\<close> is
  \<open>0.0\<close>), the negative zero, an infinity, or not a number.
\<close>

datatype pyfloat = Float rat | NegZero | PosInf | NegInf | NaN

text \<open>
  The values \<open>json.loads\<close> builds: \<open>None\<close>, \<open>bool\<close>, \<open>int\<close>, \<open>float\<close>, \<open>str\<close>, \<open>list\<close> and
  \<open>dict\<close>. A dict is the list of its items in insertion order, keys distinct.
\<close>

datatype json =
    JNull
  | JBool bool
  | JInt int
  | JFloat pyfloat
  | JStr string
  | JList "json list"
  | JObj "(string \<times> json) list"

text \<open>
  The exceptions of the code: \<open>AttributeError\<close>, \<open>TypeError\<close> and \<open>KeyError\<close> of the
  interpreter, and \<open>Raised m\<close> for an exception with the message \<open>m\<close> that an external call
  raises. \<open>NotModelled\<close> is no exception of Python: it marks a sort that is not followed
  here, one that compares two lists or whose outcome depends on the comparisons the
  implementation happens to make (see \<open>sort_by_score_desc\<close>).
\<close>

datatype error = AttributeError | TypeError | KeyError | Raised string | NotModelled

text \<open>\<open>d[k] = v\<close> on the items of a dict: an existing key keeps its place.\<close>

fun dict_set :: "string \<Rightarrow> json \<Rightarrow> (string \<times> json) list \<Rightarrow> (string \<times> json) list" where
  "dict_set k v [] = [(k, v)]"
| "dict_set k v ((k', v') # d) = (if k' = k then (k, v) # d else (k', v') # dict_set k v d)"

text \<open>\<open>x.get(k, default)\<close>: only a dict has the method.\<close>

fun py_get :: "json \<Rightarrow> string \<Rightarrow> json \<Rightarrow> error + json" where
  "py_get (JObj d) k dflt = Inr (case map_of d k of None \<Rightarrow> dflt | Some v \<Rightarrow> v)"
| "py_get _ k dflt = Inl AttributeError"

text \<open>Truth value of a Python object, as \<open>if x\<close>, \<open>not x\<close> and \<open>x or y\<close> test it.\<close>

fun truthy :: "json \<Rightarrow> error + bool" where
  "truthy JNull = Inr False"
| "truthy (JBool b) = Inr b"
| "truthy (JInt n) = Inr (n \<noteq> 0)"
| "truthy (JFloat x) = Inr (x \<noteq> Float 0 \<and> x \<noteq> NegZero)"
| "truthy (JStr s) = Inr (s \<noteq> [])"
| "truthy (JList xs) = Inr (xs \<noteq> [])"
| "truthy (JObj d) = Inr (d \<noteq> [])"

section \<open>json.loads\<close>

text \<open>
  \<open>json.loads\<close> is the standard library's, not this repository's. The sanitizer takes it
  as the parameter \<open>loads\<close>, with \<open>None\<close> for \<open>JSONDecodeError\<close>, and its properties hold for
  every such function. Where a concrete text is evaluated, \<open>json_loads\<close> below stands for
  it: a parser of the grammar the library's decoder accepts (RFC 8259 and the tokens
  \<open>NaN\<close>, \<open>Infinity\<close>, \<open>-Infinity\<close>; a repeated key keeps its last value). Characters are
  code points below 256, so a four-digit escape beyond that cannot be represented and is
  rejected here. The parser runs on fuel, one unit for each nested or repeated value;
  \<open>json_loads\<close> supplies more than a text of its length can use (\<open>json_loads_fuel\<close>).
\<close>

definition is_ws :: "char \<Rightarrow> bool" where
  "is_ws c = (c = CHR '' '' \<or> c = CHR 0x09 \<or> c = CHR 0x0A \<or> c = CHR 0x0D)"

definition skip_ws :: "string \<Rightarrow> string" where
  "skip_ws s = dropWhile is_ws s"

definition is_digit :: "char \<Rightarrow> bool" where
  "is_digit c = (48 \<le> (of_char c :: nat) \<and> (of_char c :: nat) \<le> 57)"

definition digit_val :: "char \<Rightarrow> nat" where
  "digit_val c = of_char c - 48"

definition decimal :: "string \<Rightarrow> nat" where
  "decimal ds = foldl (\<lambda>n c. 10 * n + digit_val c) 0 ds"

definition hex_val :: "char \<Rightarrow> nat option" where
  "hex_val c =
     (let n = (of_char c :: nat)
      in if 48 \<le> n \<and> n \<le> 57 then Some (n - 48)
         else if 65 \<le> n \<and> n \<le> 70 then Some (n - 55)
         else if 97 \<le> n \<and> n \<le> 102 then Some (n - 87)
         else None)"

text \<open>The character a one-letter escape stands for.\<close>

definition unescape :: "char \<Rightarrow> char option" where
  "unescape e =
     (if e = CHR 0x22 then Some (CHR 0x22)
      else if e = CHR 0x5C then Some (CHR 0x5C)
      else if e = CHR ''/'' then Some (CHR ''/'')
      else if e = CHR ''b'' then Some (CHR 0x08)
      else if e = CHR ''f'' then Some (CHR 0x0C)
      else if e = CHR ''n'' then Some (CHR 0x0A)
      else if e = CHR ''r'' then Some (CHR 0x0D)
      else if e = CHR ''t'' then Some (CHR 0x09)
      else None)"

text \<open>
  The body of a string literal, after its opening quote: the decoded text and what follows
  the closing quote. A raw control character is rejected (strict mode).
\<close>

fun scan_string :: "string \<Rightarrow> (string \<times> string) option" where
  "scan_string [] = None"
| "scan_string (c # cs) =
     (if c = CHR 0x22 then Some ([], cs)
      else if c = CHR 0x5C then
        (case cs of
           [] \<Rightarrow> None
         | e # es \<Rightarrow>
             if e = CHR ''u'' then
               (case es of
                  h1 # h2 # h3 # h4 # es' \<Rightarrow>
                    (case (hex_val h1, hex_val h2, hex_val h3, hex_val h4) of
                       (Some a, Some b, Some c, Some d) \<Rightarrow>
                         (let n = ((a * 16 + b) * 16 + c) * 16 + d
                          in if n < 256
                             then map_option (\<lambda>(t, r). (char_of n # t, r)) (scan_string es')
                             else None)
                     | _ \<Rightarrow> None)
                | _ \<Rightarrow> None)
             else
               (case unescape e of
                  None \<Rightarrow> None
                | Some d \<Rightarrow> map_option (\<lambda>(t, r). (d # t, r)) (scan_string es)))
      else if (of_char c :: nat) < 32 then None
      else map_option (\<lambda>(t, r). (c # t, r)) (scan_string cs))"

text \<open>
  \<open>float(text)\<close> for a decimal \<open>m * 10 ^ scale\<close>: the nearest double, ties to the even
  significand of 53 bits (the exponent of the last place is at least \<open>- 1074\<close>), and an
  infinity from \<open>2 ^ 1024\<close> on.
\<close>

definition pow2 :: "int \<Rightarrow> rat" where
  "pow2 k = (if 0 \<le> k then 2 ^ nat k else 1 / 2 ^ nat (- k))"

definition floor_log2 :: "rat \<Rightarrow> int" where
  "floor_log2 q =
     (let (a, b) = quotient_of q; d = bitlen a - bitlen b
      in if pow2 d \<le> q then d else d - 1)"

definition round_half_even :: "rat \<Rightarrow> int" where
  "round_half_even x =
     (let f = \<lfloor>x\<rfloor>; d = x - of_int f
      in if d < 1 / 2 then f else if 1 / 2 < d then f + 1 else if even f then f else f + 1)"

definition round_to_double :: "rat \<Rightarrow> rat option" where
  "round_to_double q =
     (if q = 0 then Some 0
      else (let u = max (floor_log2 q - 52) (- 1074);
                r = of_int (round_half_even (q / pow2 u)) * pow2 u
            in if pow2 1024 \<le> r then None else Some r))"

definition float_of_decimal :: "bool \<Rightarrow> int \<Rightarrow> int \<Rightarrow> pyfloat" where
  "float_of_decimal negative m scale =
     (case round_to_double
             (of_int m * (if 0 \<le> scale then 10 ^ nat scale else 1 / 10 ^ nat (- scale))) of
        None \<Rightarrow> if negative then NegInf else PosInf
      | Some r \<Rightarrow> if r = 0 \<and> negative then NegZero else Float (if negative then - r else r))"

text \<open>
  A number at the head of the text, by the decoder's pattern
  \<open>(-?(?:0|[1-9]\d*))(\.\d+)?([eE][-+]?\d+)?\<close>: an \<open>int\<close> when it has neither
  fraction nor exponent, a \<open>float\<close> otherwise.
\<close>

definition scan_int_part :: "string \<Rightarrow> (string \<times> string) option" where
  "scan_int_part s =
     (case s of
        [] \<Rightarrow> None
      | c # cs \<Rightarrow>
          if c = CHR ''0'' then Some ([c], cs)
          else if is_digit c then Some (takeWhile is_digit s, dropWhile is_digit s)
          else None)"

definition scan_frac :: "string \<Rightarrow> string \<times> string" where
  "scan_frac s =
     (case s of
        c # d # cs \<Rightarrow>
          if c = CHR ''.'' \<and> is_digit d
          then (c # takeWhile is_digit (d # cs), dropWhile is_digit (d # cs))
          else ([], s)
      | _ \<Rightarrow> ([], s))"

definition scan_exp :: "string \<Rightarrow> string \<times> string" where
  "scan_exp s =
     (case s of
        e # d # cs \<Rightarrow>
          if (e = CHR ''e'' \<or> e = CHR ''E'') \<and> is_digit d
          then (e # takeWhile is_digit (d # cs), dropWhile is_digit (d # cs))
          else if (e = CHR ''e'' \<or> e = CHR ''E'') \<and> (d = CHR ''+'' \<or> d = CHR ''-'')
                  \<and> cs \<noteq> [] \<and> is_digit (hd cs)
          then (e # d # takeWhile is_digit cs, dropWhile is_digit cs)
          else ([], s)
      | _ \<Rightarrow> ([], s))"

text \<open>The value of an exponent part \<open>e\<close>, \<open>e+\<close> or \<open>e-\<close> with its digits; 0 when there is none.\<close>

definition exponent_of :: "string \<Rightarrow> int" where
  "exponent_of ex =
     (case ex of
        e # c # ds \<Rightarrow>
          if c = CHR ''-'' then - int (decimal ds)
          else if c = CHR ''+'' then int (decimal ds)
          else int (decimal (c # ds))
      | _ \<Rightarrow> 0)"

definition scan_number :: "string \<Rightarrow> (json \<times> string) option" where
  "scan_number s =
     (let (sign, s1) = (case s of c # cs \<Rightarrow> if c = CHR ''-'' then ([c], cs) else ([], s)
                                 | [] \<Rightarrow> ([], s))
      in case scan_int_part s1 of
           None \<Rightarrow> None
         | Some (ds, s2) \<Rightarrow>
             (let (frac, s3) = scan_frac s2; (ex, s4) = scan_exp s3
              in if frac = [] \<and> ex = []
                 then Some (JInt (if sign = [] then int (decimal ds) else - int (decimal ds)), s2)
                 else Some (JFloat (float_of_decimal (sign \<noteq> []) (int (decimal (ds @ tl frac)))
                                      (exponent_of ex - int (length (tl frac)))), s4)))"

text \<open>A value at the head of the text (\<open>scan_once\<close>), the elements of an array after a
  value is due, and the members of an object after the opening quote of a key.\<close>

fun parse_value :: "nat \<Rightarrow> string \<Rightarrow> (json \<times> string) option"
  and parse_elems :: "nat \<Rightarrow> string \<Rightarrow> (json list \<times> string) option"
  and parse_members :: "nat \<Rightarrow> string \<Rightarrow> ((string \<times> json) list \<times> string) option" where
  "parse_value 0 s = None"
| "parse_value (Suc n) s =
     (case s of
        [] \<Rightarrow> None
      | c # cs \<Rightarrow>
          if c = CHR 0x22 then map_option (\<lambda>(t, r). (JStr t, r)) (scan_string cs)
          else if c = CHR ''{'' then
            (case skip_ws cs of
               [] \<Rightarrow> None
             | d # ds \<Rightarrow>
                 if d = CHR ''}'' then Some (JObj [], ds)
                 else if d = CHR 0x22
                 then map_option (\<lambda>(ms, r). (JObj (foldl (\<lambda>d (k, v). dict_set k v d) [] ms), r))
                        (parse_members n ds)
                 else None)
          else if c = CHR ''['' then
            (case skip_ws cs of
               [] \<Rightarrow> None
             | d # ds \<Rightarrow>
                 if d = CHR '']'' then Some (JList [], ds)
                 else map_option (\<lambda>(vs, r). (JList vs, r)) (parse_elems n (d # ds)))
          else if prefix ''null'' s then Some (JNull, drop 4 s)
          else if prefix ''true'' s then Some (JBool True, drop 4 s)
          else if prefix ''false'' s then Some (JBool False, drop 5 s)
          else
            (case scan_number s of
               Some x \<Rightarrow> Some x
             | None \<Rightarrow>
                 if prefix ''NaN'' s then Some (JFloat NaN, drop 3 s)
                 else if prefix ''Infinity'' s then Some (JFloat PosInf, drop 8 s)
                 else if prefix ''-Infinity'' s then Some (JFloat NegInf, drop 9 s)
                 else None))"
| "parse_elems 0 s = None"
| "parse_elems (Suc n) s =
     (case parse_value n s of
        None \<Rightarrow> None
      | Some (v, r) \<Rightarrow>
          (case skip_ws r of
             [] \<Rightarrow> None
           | d # ds \<Rightarrow>
               if d = CHR '']'' then Some ([v], ds)
               else if d = CHR '',''
               then map_option (\<lambda>(vs, r'). (v # vs, r')) (parse_elems n (skip_ws ds))
               else None))"
| "parse_members 0 s = None"
| "parse_members (Suc n) s =
     (case scan_string s of
        None \<Rightarrow> None
      | Some (k, r) \<Rightarrow>
          (case skip_ws r of
             [] \<Rightarrow> None
           | c # cs \<Rightarrow>
               if c \<noteq> CHR '':'' then None
               else
                 (case parse_value n (skip_ws cs) of
                    None \<Rightarrow> None
                  | Some (v, r') \<Rightarrow>
                      (case skip_ws r' of
                         [] \<Rightarrow> None
                       | d # ds \<Rightarrow>
                           if d = CHR ''}'' then Some ([(k, v)], ds)
                           else if d = CHR '','' then
                             (case skip_ws ds of
                                [] \<Rightarrow> None
                              | q # qs \<Rightarrow>
                                  if q = CHR 0x22
                                  then map_option (\<lambda>(ms, r''). ((k, v) # ms, r''))
                                         (parse_members n qs)
                                  else None)
                           else None))))"

definition json_loads :: "string \<Rightarrow> json option" where
  "json_loads s =
     (case parse_value (2 * length s + 2) (skip_ws s) of
        None \<Rightarrow> None
      | Some (v, r) \<Rightarrow> if skip_ws r = [] then Some v else None)"

text \<open>
  Two invariants of the parser in its fuel \<open>n\<close>: a successful parse consumes input, and at
  fuel beyond twice the length of the text one more unit changes nothing.
\<close>

definition consumes :: "nat \<Rightarrow> bool" where
  "consumes n =
     ((\<forall>s v r. parse_value n s = Some (v, r) \<longrightarrow> length r < length s) \<and>
      (\<forall>s vs r. parse_elems n s = Some (vs, r) \<longrightarrow> length r < length s) \<and>
      (\<forall>s ms r. parse_members n s = Some (ms, r) \<longrightarrow> length r < length s))"

definition steady :: "nat \<Rightarrow> bool" where
  "steady n =
     ((\<forall>s. 2 * length s + 1 \<le> n \<longrightarrow> parse_value (Suc n) s = parse_value n s) \<and>
      (\<forall>s. 2 * length s + 2 \<le> n \<longrightarrow> parse_elems (Suc n) s = parse_elems n s) \<and>
      (\<forall>s. 2 * length s + 2 \<le> n \<longrightarrow> parse_members (Suc n) s = parse_members n s))"

section \<open>fapp.py: ResumeJobMatcher._clean_json_response\<close>

text \<open>\<open>s.replace(old, "")\<close>: the occurrences of \<open>old\<close> are cut out from left to right.\<close>

function remove_all :: "string \<Rightarrow> string \<Rightarrow> string" where
  "remove_all old [] = []"
| "remove_all old (c # cs) =
     (if old \<noteq> [] \<and> prefix old (c # cs)
      then remove_all old (drop (length old) (c # cs))
      else c # remove_all old cs)"
  by pat_completeness auto
termination
  by (relation "measure (\<lambda>(old, s). length s)") auto

text \<open>\<open>s.index(c)\<close> and \<open>s.rindex(c)\<close>, with \<open>None\<close> for \<open>ValueError\<close>.\<close>

fun index_of :: "char \<Rightarrow> string \<Rightarrow> nat option" where
  "index_of c [] = None"
| "index_of c (x # xs) = (if x = c then Some 0 else map_option Suc (index_of c xs))"

definition rindex_of :: "char \<Rightarrow> string \<Rightarrow> nat option" where
  "rindex_of c s = map_option (\<lambda>i. length s - 1 - i) (index_of c (rev s))"

text \<open>\<open>s[a:b]\<close> for indices that are not negative.\<close>

definition slice :: "string \<Rightarrow> nat \<Rightarrow> nat \<Rightarrow> string" where
  "slice s a b = take (b - a) (drop a s)"

text \<open>\<open>re.sub(r'[\x00-\x1f\x7f-\x9f]', '', s)\<close>.\<close>

definition is_ctrl :: "char \<Rightarrow> bool" where
  "is_ctrl c = ((of_char c :: nat) \<le> 31 \<or> (127 \<le> (of_char c :: nat) \<and> (of_char c :: nat) \<le> 159))"

definition strip_ctrl :: "string \<Rightarrow> string" where
  "strip_ctrl s = filter (\<lambda>c. \<not> is_ctrl c) s"

definition fence :: string where
  "fence = [CHR 0x60, CHR 0x60, CHR 0x60]"

text \<open>
  The method \<open>_clean_json_response\<close> of fapp.py (f.py and parse.py have the same body).
  The parameter \<open>loads\<close> is \<open>json.loads\<close> on the texts for which it returns a value or
  raises \<open>JSONDecodeError\<close> (the answer \<open>None\<close>). The first \<open>try\<close> catches that exception
  only, the second also the \<open>ValueError\<close> of the two index searches. A call of
  \<open>json.loads\<close> that raises anything else (\<open>RecursionError\<close>, for a text nested deeper
  than the interpreter's recursion limit) is not caught by either handler and leaves the
  method; such texts are outside this definition.
\<close>

definition clean_json_response :: "(string \<Rightarrow> json option) \<Rightarrow> string \<Rightarrow> json" where
  "clean_json_response loads raw =
     (let response = strip (remove_all fence (remove_all (fence @ ''json'') raw))
      in case loads response of
           Some v \<Rightarrow> v
         | None \<Rightarrow>
             (case index_of (CHR ''{'') response of
                None \<Rightarrow> JObj []
              | Some start \<Rightarrow>
                  (case rindex_of (CHR ''}'') response of
                     None \<Rightarrow> JObj []
                   | Some last_brace \<Rightarrow>
                       (case loads (strip_ctrl (slice response start (last_brace + 1))) of
                          Some v \<Rightarrow> v
                        | None \<Rightarrow> JObj []))))"

text \<open>The response of the specification's scenario: prose, then a fenced object.\<close>

definition scenario_response :: string where
  \<open>scenario_response = ''Here is the result:'' @ [nl] @ fence @ ''json'' @ [nl]
     @ ''{"match_score": 85}'' @ [nl] @ fence\<close>

section \<open>fapp.py: ResumeJobMatcher.filter_jobs\<close>

text \<open>\<open>str.lower()\<close> on code points below 256.\<close>

definition lower_char :: "char \<Rightarrow> char" where
  "lower_char c =
     (let n = (of_char c :: nat)
      in if (65 \<le> n \<and> n \<le> 90) \<or> (192 \<le> n \<and> n \<le> 222 \<and> n \<noteq> 215)
         then char_of (n + 32) else c)"

definition lower :: "string \<Rightarrow> string" where
  "lower s = map lower_char s"

text \<open>\<open>k in s\<close> for two strings: \<open>k\<close> occurs in \<open>s\<close> as a substring.\<close>

fun is_in :: "string \<Rightarrow> string \<Rightarrow> bool" where
  "is_in k [] = (k = [])"
| "is_in k (c # cs) = (prefix k (c # cs) \<or> is_in k cs)"

text \<open>
  \<open>str(x)\<close>: a string is returned as it is; for any other value the text is Python's
  \<open>repr\<close>, a builtin taken as the parameter \<open>repr\<close>.
\<close>

fun py_str :: "(json \<Rightarrow> string) \<Rightarrow> json \<Rightarrow> string" where
  "py_str repr (JStr s) = s"
| "py_str repr v = repr v"

text \<open>The items a \<open>for\<close> loop over a value visits: \<open>TypeError\<close> when it is not iterable.\<close>

fun py_iter :: "json \<Rightarrow> error + json list" where
  "py_iter (JList xs) = Inr xs"
| "py_iter (JStr s) = Inr (map (\<lambda>c. JStr [c]) s)"
| "py_iter (JObj d) = Inr (map (\<lambda>kv. JStr (fst kv)) d)"
| "py_iter _ = Inl TypeError"

text \<open>\<open>req.lower()\<close>: only a string has the method.\<close>

fun py_lower :: "json \<Rightarrow> error + string" where
  "py_lower (JStr s) = Inr (lower s)"
| "py_lower _ = Inl AttributeError"

text \<open>
  \<open>any(keyword in req.lower() for req in reqs)\<close>: stops at the first requirement that
  contains the keyword, raises at a requirement met before that which is no string.
\<close>

fun any_req :: "string \<Rightarrow> json list \<Rightarrow> error + bool" where
  "any_req keyword [] = Inr False"
| "any_req keyword (req # reqs) =
     (case py_lower req of
        Inl e \<Rightarrow> Inl e
      | Inr s \<Rightarrow> if is_in keyword s then Inr True else any_req keyword reqs)"

definition location_match :: "string \<Rightarrow> string \<Rightarrow> bool" where
  "location_match location job_location = (is_in location job_location \<or> location = [])"

text \<open>The three disjuncts of \<open>keyword_match\<close>, evaluated from the left.\<close>

definition keyword_match :: "string \<Rightarrow> string \<Rightarrow> string \<Rightarrow> json \<Rightarrow> error + bool" where
  "keyword_match keyword job_title job_description job =
     (if is_in keyword job_title then Inr True
      else if is_in keyword job_description then Inr True
      else (case py_get job ''requirements'' (JList []) of
              Inl e \<Rightarrow> Inl e
            | Inr reqs \<Rightarrow>
                (case py_iter reqs of
                   Inl e \<Rightarrow> Inl e
                 | Inr items \<Rightarrow> any_req keyword items)))"

text \<open>
  The body of the loop of \<open>filter_jobs\<close> for one job: whether the job is appended. The
  arguments \<open>location\<close> and \<open>keyword\<close> are the lowered ones.
\<close>

definition job_kept :: "(json \<Rightarrow> string) \<Rightarrow> string \<Rightarrow> string \<Rightarrow> json \<Rightarrow> error + bool" where
  "job_kept repr location keyword job =
     (case py_get job ''location'' (JStr []) of
        Inl e \<Rightarrow> Inl e
      | Inr loc \<Rightarrow>
     (case py_get job ''job_title'' (JStr []) of
        Inl e \<Rightarrow> Inl e
      | Inr title \<Rightarrow>
     (case py_get job ''description'' (JStr []) of
        Inl e \<Rightarrow> Inl e
      | Inr description \<Rightarrow>
          (let job_location = lower (py_str repr loc);
               job_title = lower (py_str repr title);
               job_description = lower (py_str repr description)
           in case keyword_match keyword job_title job_description job of
                Inl e \<Rightarrow> Inl e
              | Inr km \<Rightarrow> Inr (location_match location job_location \<and> km)))))"

fun filter_loop ::
  "(json \<Rightarrow> string) \<Rightarrow> string \<Rightarrow> string \<Rightarrow> json list \<Rightarrow> json list \<Rightarrow> error + json list" where
  "filter_loop repr location keyword [] filtered = Inr filtered"
| "filter_loop repr location keyword (job # jobs) filtered =
     (case job_kept repr location keyword job of
        Inl e \<Rightarrow> Inl e
      | Inr keep \<Rightarrow>
          filter_loop repr location keyword jobs (if keep then filtered @ [job] else filtered))"

definition filter_jobs ::
  "(json \<Rightarrow> string) \<Rightarrow> json list \<Rightarrow> string \<Rightarrow> string \<Rightarrow> error + json list" where
  "filter_jobs repr job_listings location keyword =
     (case filter_loop repr (lower location) (lower keyword) job_listings [] of
        Inl e \<Rightarrow> Inl e
      | Inr filtered \<Rightarrow> Inr (take 5 filtered))"

text \<open>
  The two tests as the specification words them, over the library's \<open>sublist\<close>: the text
  of a field is \<open>str\<close> of its value, the empty string where the job has no such field;
  the requirement strings are the strings in the list under \<open>requirements\<close>; the match is
  case-insensitive, so both sides are lowered. A job passes the location test if the
  location is empty or a substring of the job's location field, and the keyword test if the
  keyword is a substring of the title, or of the description, or of any requirement string.
\<close>

definition field_text :: "(json \<Rightarrow> string) \<Rightarrow> json \<Rightarrow> string \<Rightarrow> string" where
  "field_text repr job key =
     (case job of
        JObj d \<Rightarrow> (case map_of d key of None \<Rightarrow> [] | Some v \<Rightarrow> py_str repr v)
      | _ \<Rightarrow> [])"

fun strings_of :: "json list \<Rightarrow> string list" where
  "strings_of [] = []"
| "strings_of (JStr s # rs) = s # strings_of rs"
| "strings_of (r # rs) = strings_of rs"

definition requirement_strings :: "json \<Rightarrow> string list" where
  "requirement_strings job =
     (case job of
        JObj d \<Rightarrow> (case map_of d ''requirements'' of Some (JList rs) \<Rightarrow> strings_of rs | _ \<Rightarrow> [])
      | _ \<Rightarrow> [])"

definition passes_location_test :: "(json \<Rightarrow> string) \<Rightarrow> string \<Rightarrow> json \<Rightarrow> bool" where
  "passes_location_test repr location job =
     (location = [] \<or> sublist (lower location) (lower (field_text repr job ''location'')))"

definition passes_keyword_test :: "(json \<Rightarrow> string) \<Rightarrow> string \<Rightarrow> json \<Rightarrow> bool" where
  "passes_keyword_test repr keyword job =
     (sublist (lower keyword) (lower (field_text repr job ''job_title'')) \<or>
      sublist (lower keyword) (lower (field_text repr job ''description'')) \<or>
      list_ex (\<lambda>r. sublist (lower keyword) (lower r)) (requirement_strings job))"

text \<open>
  A job listing as the specification has it: a dict whose \<open>requirements\<close>, where present, is
  a list of strings.
\<close>

fun is_str :: "json \<Rightarrow> bool" where
  "is_str (JStr s) = True"
| "is_str v = False"

definition listing :: "json \<Rightarrow> bool" where
  "listing job =
     (case job of
        JObj d \<Rightarrow>
          (case map_of d ''requirements'' of
             None \<Rightarrow> True
           | Some (JList rs) \<Rightarrow> list_all is_str rs
           | Some v \<Rightarrow> False)
      | _ \<Rightarrow> False)"

text \<open>
  The job of the specification's filter scenario, one that does not match, one that passes
  the location test only, and one that passes the keyword test only, by a requirement.
\<close>

definition kathmandu_job :: json where
  "kathmandu_job =
     JObj [(''location'', JStr ''Kathmandu, Nepal''), (''job_title'', JStr ''Software Engineer'')]"

definition pokhara_job :: json where
  "pokhara_job =
     JObj [(''location'', JStr ''Pokhara''), (''job_title'', JStr ''Accountant''),
           (''requirements'', JList [JStr ''Bookkeeping''])]"

definition kathmandu_accountant :: json where
  "kathmandu_accountant =
     JObj [(''location'', JStr ''Kathmandu''), (''job_title'', JStr ''Accountant''),
           (''description'', JStr ''Keeps the books'')]"

definition pokhara_developer :: json where
  "pokhara_developer =
     JObj [(''location'', JStr ''Pokhara''), (''job_title'', JStr ''Developer''),
           (''requirements'', JList [JStr ''Degree in Software Engineering''])]"

section \<open>The world outside the program\<close>

text \<open>What a call into an external model does: it returns a text, or raises with a message.\<close>

datatype outcome = Returns string | Raises string

text \<open>
  What the call of the hosted model does in \<open>ats_extractor\<close>: \<open>generate_content\<close> raises; or
  it returns a response whose attribute \<open>text\<close> raises when it is read; or the response has
  a text.
\<close>

datatype answer = CallRaises string | TextRaises string | Text string

text \<open>What the browser driver does for one URL.\<close>

record browser =
  launches :: bool
  navigates :: bool
  page_source :: "string option"
  quits :: bool

text \<open>
  Everything the program reads from outside, fixed for one run: the library functions it
  calls (\<open>json.loads\<close> with the text of its decode error, the builtin \<open>repr\<close>, the HTML
  parser behind \<open>clean_body_content\<close>), the browser, the local model behind \<open>self.llm\<close> (the
  outcome of its i-th call while extracting jobs and of its i-th call while matching), whether
  \<open>save_file\<close> stored the resume, what \<open>extract_text_from_pdf\<close> found in it, and what the
  call of the hosted model does for the resume text.
\<close>

record world =
  w_loads :: "string \<Rightarrow> json option"
  decode_text :: "string \<Rightarrow> string"
  w_repr :: "json \<Rightarrow> string"
  body_text :: "string \<Rightarrow> string"
  web :: "string \<Rightarrow> browser"
  extract_llm :: "nat \<Rightarrow> outcome"
  llm :: "nat \<Rightarrow> outcome"
  saved :: bool
  pdf_text :: "string option"
  gemini :: "string \<Rightarrow> answer"

section \<open>scraper.py: scrape_website\<close>

text \<open>
  \<open>scrape_website\<close> with the number of running browser sessions as state: the page source
  and the sessions running afterwards. \<open>driver.quit()\<close> is the last statement of the \<open>try\<close>
  block before \<open>return html\<close>; the \<open>except\<close> branch only logs and returns the empty string.
\<close>

definition scrape_website :: "(string \<Rightarrow> browser) \<Rightarrow> string \<Rightarrow> nat \<Rightarrow> string \<times> nat" where
  "scrape_website drv url sessions =
     (if \<not> launches (drv url) then ([], sessions)
      else if \<not> navigates (drv url) then ([], Suc sessions)
      else (case page_source (drv url) of
              None \<Rightarrow> ([], Suc sessions)
            | Some html \<Rightarrow>
                if \<not> quits (drv url) then ([], Suc sessions) else (html, sessions)))"

text \<open>A site that cannot be reached: the browser starts, the navigation raises.\<close>

definition unreachable :: browser where
  "unreachable = \<lparr>launches = True, navigates = False, page_source = None, quits = True\<rparr>"

section \<open>resume_praser.py and resume_processor.py\<close>

text \<open>The function \<open>clean_json_response\<close> of resume_praser.py, which returns a text.\<close>

definition praser_clean_json_response :: "string \<Rightarrow> string" where
  "praser_clean_json_response raw =
     (let text = remove_all fence (remove_all (fence @ ''json'') raw)
      in case index_of (CHR ''{'') text of
           None \<Rightarrow> text
         | Some start \<Rightarrow>
             (case rindex_of (CHR ''}'') text of
                None \<Rightarrow> text
              | Some last_brace \<Rightarrow> strip_ctrl (slice text start (last_brace + 1))))"

text \<open>
  \<open>ats_extractor\<close>. Its handler builds the error dict from \<open>str(e)\<close> and, when \<open>response\<close>
  is bound, from \<open>response.text\<close>, which it reads again: when reading the text is what
  raised, it raises in the handler too and the exception leaves the function.
\<close>

definition ats_extractor :: "world \<Rightarrow> string \<Rightarrow> error + json" where
  "ats_extractor w resume_data =
     (case gemini w resume_data of
        CallRaises m \<Rightarrow> Inr (JObj [(''error'', JStr m), (''raw_response'', JNull)])
      | TextRaises m \<Rightarrow> Inl (Raised m)
      | Text text \<Rightarrow>
          (case w_loads w (praser_clean_json_response text) of
             Some parsed_data \<Rightarrow> Inr parsed_data
           | None \<Rightarrow>
               Inr (JObj [(''error'', JStr (decode_text w (praser_clean_json_response text))),
                          (''raw_response'', JStr text)])))"

text \<open>\<open>k in x\<close> for a string \<open>k\<close>: a key of a dict, an element of a list, a substring of a
  string; \<open>TypeError\<close> for a value that is no container.\<close>

fun py_contains :: "string \<Rightarrow> json \<Rightarrow> error + bool" where
  "py_contains k (JObj d) = Inr (map_of d k \<noteq> None)"
| "py_contains k (JList xs) = Inr (List.member xs (JStr k))"
| "py_contains k (JStr s) = Inr (is_in k s)"
| "py_contains k _ = Inl TypeError"

text \<open>
  The subscription \<open>x[k]\<close> for a string \<open>k\<close>: the value of the key in a dict, \<open>KeyError\<close>
  when it has none; \<open>TypeError\<close> for a list or a string, whose indices are integers, and for
  a value that cannot be subscripted.
\<close>

fun py_item :: "json \<Rightarrow> string \<Rightarrow> error + json" where
  "py_item (JObj d) k = (case map_of d k of None \<Rightarrow> Inl KeyError | Some v \<Rightarrow> Inr v)"
| "py_item _ k = Inl TypeError"

text \<open>
  \<open>parse_resume_from_file\<close>. Where \<open>"error" in prased_data\<close> holds, the message printed
  reads \<open>prased_data['error']\<close> before the data is returned.
\<close>

definition parse_resume_from_file :: "world \<Rightarrow> error + json" where
  "parse_resume_from_file w =
     (if \<not> saved w then Inr (JObj [(''error'', JStr ''Failed to save file'')])
      else (case pdf_text w of
              None \<Rightarrow> Inr (JObj [(''error'', JStr ''Failed to extract text from PDF'')])
            | Some resume_data \<Rightarrow>
                if resume_data = []
                then Inr (JObj [(''error'', JStr ''Failed to extract text from PDF'')])
                else (case ats_extractor w resume_data of
                        Inl e \<Rightarrow> Inl e
                      | Inr prased_data \<Rightarrow>
                          (case py_contains ''error'' prased_data of
                             Inl e \<Rightarrow> Inl e
                           | Inr found \<Rightarrow>
                               if found
                               then (case py_item prased_data ''error'' of
                                       Inl e \<Rightarrow> Inl e
                                     | Inr reported \<Rightarrow> Inr prased_data)
                               else Inr prased_data))))"

section \<open>fapp.py: ResumeJobMatcher.match_resume_to_jobs\<close>

definition placeholder_no_data :: json where
  "placeholder_no_data =
     JObj [(''match_score'', JInt 0), (''matched_skills'', JList []),
           (''missing_skills'', JList []), (''match_reasoning'', JStr ''No match data available.''),
           (''matched_experience'', JList []), (''improvement_suggestions'', JList []),
           (''additional_comments'', JStr [])]"

definition placeholder_error :: "string \<Rightarrow> json" where
  "placeholder_error text =
     JObj [(''match_score'', JInt 0), (''matched_skills'', JList []),
           (''missing_skills'', JList []), (''match_reasoning'', JStr ''Error during matching.''),
           (''matched_experience'', JList []), (''improvement_suggestions'', JList []),
           (''additional_comments'', JStr text)]"

text \<open>The dict display that unpacks \<open>job\<close> and sets \<open>match_details\<close>: \<open>TypeError\<close> when
  \<open>job\<close> is no mapping.\<close>

fun with_match_details :: "json \<Rightarrow> json \<Rightarrow> error + json" where
  "with_match_details (JObj d) md = Inr (JObj (dict_set ''match_details'' md d))"
| "with_match_details _ md = Inl TypeError"

text \<open>The \<open>try\<close> block of the loop, for the i-th job.\<close>

definition try_match :: "world \<Rightarrow> nat \<Rightarrow> json \<Rightarrow> error + json" where
  "try_match w i job =
     (case py_get job ''job_title'' (JStr ''Unknown Title'') of
        Inl e \<Rightarrow> Inl e
      | Inr title \<Rightarrow>
          (case llm w i of
             Raises m \<Rightarrow> Inl (Raised m)
           | Returns match_result \<Rightarrow>
               (let match_data = clean_json_response (w_loads w) match_result
                in case truthy match_data of
                     Inl e \<Rightarrow> Inl e
                   | Inr t \<Rightarrow>
                       with_match_details job (if t then match_data else placeholder_no_data))))"

text \<open>
  \<open>str(e)\<close> in the handler. Only the message of the model's exception reaches a result: the
  other exception of the \<open>try\<close> block comes from a job that is no dict, and for such a job
  the handler's own dict display raises.
\<close>

fun exn_text :: "error \<Rightarrow> string" where
  "exn_text (Raised m) = m"
| "exn_text e = []"

text \<open>One iteration: the \<open>try\<close> block, and the handler of \<open>except Exception\<close>.\<close>

definition match_job :: "world \<Rightarrow> nat \<Rightarrow> json \<Rightarrow> error + json" where
  "match_job w i job =
     (case try_match w i job of
        Inr matched_job \<Rightarrow> Inr matched_job
      | Inl e \<Rightarrow> with_match_details job (placeholder_error (exn_text e)))"

fun match_loop :: "world \<Rightarrow> nat \<Rightarrow> json list \<Rightarrow> json list \<Rightarrow> error + json list" where
  "match_loop w i [] matched_jobs = Inr matched_jobs"
| "match_loop w i (job # jobs) matched_jobs =
     (case match_job w i job of
        Inl e \<Rightarrow> Inl e
      | Inr matched_job \<Rightarrow> match_loop w (Suc i) jobs (matched_jobs @ [matched_job]))"

text \<open>The sort key \<open>x.get("match_details", {}).get("match_score", 0)\<close>.\<close>

definition score_key :: "json \<Rightarrow> error + json" where
  "score_key x =
     (case py_get x ''match_details'' (JObj []) of
        Inl e \<Rightarrow> Inl e
      | Inr md \<Rightarrow> py_get md ''match_score'' (JInt 0))"

fun keys_of :: "json list \<Rightarrow> error + json list" where
  "keys_of [] = Inr []"
| "keys_of (x # xs) =
     (case score_key x of
        Inl e \<Rightarrow> Inl e
      | Inr k \<Rightarrow> (case keys_of xs of Inl e \<Rightarrow> Inl e | Inr ks \<Rightarrow> Inr (k # ks)))"

text \<open>
  The place of a number in the order of Python's numbers: an \<open>int\<close>, a \<open>bool\<close> (an \<open>int\<close> in
  Python) or a float that is not NaN. The first component is \<open>- 1\<close>, 0 or 1 for the negative
  infinity, a finite number and the positive infinity; the pairs are ordered
  lexicographically. Integers and floats are compared by their exact values.
\<close>

fun num_key :: "json \<Rightarrow> (int \<times> rat) option" where
  "num_key (JInt n) = Some (0, of_int n)"
| "num_key (JBool b) = Some (0, if b then 1 else 0)"
| "num_key (JFloat (Float q)) = Some (0, q)"
| "num_key (JFloat NegZero) = Some (0, 0)"
| "num_key (JFloat PosInf) = Some (1, 0)"
| "num_key (JFloat NegInf) = Some (- 1, 0)"
| "num_key k = None"

fun str_key :: "json \<Rightarrow> string option" where
  "str_key (JStr s) = Some s"
| "str_key k = None"

fun is_number :: "json \<Rightarrow> bool" where
  "is_number (JInt n) = True"
| "is_number (JBool b) = True"
| "is_number (JFloat x) = True"
| "is_number k = False"

fun is_list :: "json \<Rightarrow> bool" where
  "is_list (JList xs) = True"
| "is_list k = False"

text \<open>
  \<open>a < b\<close> and \<open>a >= b\<close> for two keys. Numbers are compared by value, and every comparison
  with NaN is false; strings are compared by code points; \<open>None\<close>, dicts and values of
  different kinds cannot be ordered. Two lists are compared element by element, which is
  not followed here.
\<close>

fun py_lt :: "json \<Rightarrow> json \<Rightarrow> error + bool" where
  "py_lt a b =
     (if is_number a \<and> is_number b
      then (case (num_key a, num_key b) of
              (Some x, Some y) \<Rightarrow> Inr (x < y)
            | _ \<Rightarrow> Inr False)
      else (case (str_key a, str_key b) of
              (Some s, Some t) \<Rightarrow> Inr (s < t)
            | _ \<Rightarrow> if is_list a \<and> is_list b then Inl NotModelled else Inl TypeError))"

fun py_ge :: "json \<Rightarrow> json \<Rightarrow> error + bool" where
  "py_ge a b =
     (if is_number a \<and> is_number b
      then (case (num_key a, num_key b) of
              (Some x, Some y) \<Rightarrow> Inr (y \<le> x)
            | _ \<Rightarrow> Inr False)
      else (case (str_key a, str_key b) of
              (Some s, Some t) \<Rightarrow> Inr (t \<le> s)
            | _ \<Rightarrow> if is_list a \<and> is_list b then Inl NotModelled else Inl TypeError))"

text \<open>
  \<open>matched_jobs.sort(key=..., reverse=True)\<close>. The keys are computed first, and with fewer
  than two jobs nothing is compared. The sort reverses the list, sorts it stably in
  ascending order of the keys, using \<open><\<close> only, and reverses the result. Where \<open><\<close> orders
  the keys (all of them numbers and none NaN, or all of them strings) that result is
  determined, whatever comparisons are made. For two jobs there is one comparison, of the
  first key with the second, and the jobs are swapped when it holds. For three or more
  jobs whose keys are not ordered by \<open><\<close>: when no key is NaN or a list, some comparison meets
  \<open>None\<close>, a dict or two values of different kinds and raises \<open>TypeError\<close>; with NaN or a
  list among the keys the outcome, a list in some order or \<open>TypeError\<close>, depends on which
  comparisons the implementation makes, and the answer here is \<open>NotModelled\<close>.
\<close>

definition sort_by_score_desc :: "json list \<Rightarrow> error + json list" where
  "sort_by_score_desc xs =
     (case keys_of xs of
        Inl e \<Rightarrow> Inl e
      | Inr ks \<Rightarrow>
          if length xs < 2 then Inr xs
          else (case those (map num_key ks) of
                  Some ns \<Rightarrow> Inr (rev (map snd (sort_key fst (rev (zip ns xs)))))
                | None \<Rightarrow>
                    (case those (map str_key ks) of
                       Some ss \<Rightarrow> Inr (rev (map snd (sort_key fst (rev (zip ss xs)))))
                     | None \<Rightarrow>
                         (case (xs, ks) of
                            ([x0, x1], [k0, k1]) \<Rightarrow>
                              (case py_lt k0 k1 of
                                 Inl e \<Rightarrow> Inl e
                               | Inr swap \<Rightarrow> Inr (if swap then [x1, x0] else [x0, x1]))
                          | _ \<Rightarrow>
                              if list_ex (\<lambda>k. k = JFloat NaN \<or> is_list k) ks
                              then Inl NotModelled
                              else Inl TypeError))))"

definition match_resume_to_jobs :: "world \<Rightarrow> json list \<Rightarrow> error + json list" where
  "match_resume_to_jobs w job_listings =
     (case parse_resume_from_file w of
        Inl e \<Rightarrow> Inl e
      | Inr resume_data \<Rightarrow>
          (case py_contains ''error'' resume_data of
             Inl e \<Rightarrow> Inl e
           | Inr failed \<Rightarrow>
               if failed then Inr []
               else (case match_loop w 0 job_listings [] of
                       Inl e \<Rightarrow> Inl e
                     | Inr matched_jobs \<Rightarrow> sort_by_score_desc matched_jobs)))"

section \<open>f.py: ResumeJobMatcher.match_resume_to_jobs\<close>

text \<open>
  The loop of f.py (parse.py has the same): the handler only logs, so an iteration that
  raises appends nothing. The index counts the calls of the model.
\<close>

fun match_loop_f :: "world \<Rightarrow> nat \<Rightarrow> json list \<Rightarrow> json list \<Rightarrow> json list" where
  "match_loop_f w i [] matched_jobs = matched_jobs"
| "match_loop_f w i (job # jobs) matched_jobs =
     (case py_get job ''job_title'' JNull of
        Inl e \<Rightarrow> match_loop_f w i jobs matched_jobs
      | Inr title \<Rightarrow>
          (case llm w i of
             Raises m \<Rightarrow> match_loop_f w (Suc i) jobs matched_jobs
           | Returns match_result \<Rightarrow>
               (case with_match_details job (clean_json_response (w_loads w) match_result) of
                  Inl e \<Rightarrow> match_loop_f w (Suc i) jobs matched_jobs
                | Inr matched_job \<Rightarrow>
                    match_loop_f w (Suc i) jobs (matched_jobs @ [matched_job]))))"

definition match_resume_to_jobs_f :: "world \<Rightarrow> json list \<Rightarrow> error + json list" where
  "match_resume_to_jobs_f w job_listings =
     (case parse_resume_from_file w of
        Inl e \<Rightarrow> Inl e
      | Inr resume_data \<Rightarrow>
          (case py_contains ''error'' resume_data of
             Inl e \<Rightarrow> Inl e
           | Inr failed \<Rightarrow>
               if failed then Inr []
               else sort_by_score_desc (match_loop_f w 0 job_listings [])))"

text \<open>
  A matched job whose score is a number other than NaN, and the place of that score in the
  order of the numbers (that of 0 where the job has no such score).
\<close>

definition has_number :: "json \<Rightarrow> bool" where
  "has_number x =
     (case score_key x of
        Inl e \<Rightarrow> False
      | Inr k \<Rightarrow> num_key k \<noteq> None)"

definition score_of :: "json \<Rightarrow> int \<times> rat" where
  "score_of x =
     (case score_key x of
        Inl e \<Rightarrow> (0, 0)
      | Inr k \<Rightarrow> (case num_key k of None \<Rightarrow> (0, 0) | Some n \<Rightarrow> n))"

text \<open>
  ``A's score \<open>>=\<close> B's score'' as Python evaluates it on the sort keys of two matched jobs
  (false where a key cannot be read or the comparison raises), and two jobs tied in score.
\<close>

definition score_ge :: "json \<Rightarrow> json \<Rightarrow> bool" where
  "score_ge a b =
     (case score_key a of
        Inl e \<Rightarrow> False
      | Inr ka \<Rightarrow> (case score_key b of Inl e \<Rightarrow> False | Inr kb \<Rightarrow> py_ge ka kb = Inr True))"

definition tied :: "json \<Rightarrow> json \<Rightarrow> bool" where
  "tied a b = (score_ge a b \<and> score_ge b a)"

text \<open>
  A run in which the resume parses and the model answers the i-th job with the i-th of the
  given texts; a failing call where the texts run out.
\<close>

definition answering :: "string list \<Rightarrow> world" where
  \<open>answering answers =
     \<lparr>w_loads = json_loads, decode_text = (\<lambda>s. []), w_repr = (\<lambda>v. []), body_text = (\<lambda>h. h),
      web = (\<lambda>u. unreachable), extract_llm = (\<lambda>i. Raises ''connection refused''),
      llm = (\<lambda>i. if i < length answers then Returns (answers ! i) else Raises ''connection refused''),
      saved = True, pdf_text = Some ''Jane Doe, engineer'',
      gemini = (\<lambda>t. Text ''{"Full Name": "Jane Doe"}'')\<rparr>\<close>

text \<open>The seven jobs of the ranking scenario and the model's answers to them.\<close>

definition titled :: "string \<Rightarrow> json" where
  "titled t = JObj [(''job_title'', JStr t)]"

definition seven_jobs :: "json list" where
  "seven_jobs = map titled [''A'', ''B'', ''C'', ''D'', ''E'', ''F'', ''G'']"

definition seven_answers :: "string list" where
  \<open>seven_answers =
     [''{"match_score": 90}'', ''{"match_score": 40}'', ''{"match_score": 90}'',
      ''{"match_score": 10}'', ''{"match_score": 70}'', ''{"match_score": 0}'',
      ''{"match_score": 55}'']\<close>

text \<open>Three answers with an integer and two floats as scores.\<close>

definition three_answers :: "string list" where
  \<open>three_answers = [''{"match_score": 40}'', ''{"match_score": 90.5}'', ''{"match_score": 40.0}'']\<close>

text \<open>
  A job with a title, and such a job after matching with an integer score or with any
  score.
\<close>

definition scored :: "string \<Rightarrow> int \<Rightarrow> json" where
  "scored t n = JObj [(''job_title'', JStr t), (''match_details'', JObj [(''match_score'', JInt n)])]"

definition with_score :: "string \<Rightarrow> json \<Rightarrow> json" where
  "with_score t k = JObj [(''job_title'', JStr t), (''match_details'', JObj [(''match_score'', k)])]"

text \<open>
  What the loop of fapp.py makes of the i-th job: the job with \<open>match_details\<close> set, to the
  error placeholder when the model's call raised.
\<close>

definition carries :: "world \<Rightarrow> nat \<Rightarrow> json \<Rightarrow> json \<Rightarrow> bool" where
  "carries w i job matched_job =
     (\<exists>d md. job = JObj d \<and> matched_job = JObj (dict_set ''match_details'' md d) \<and>
             (\<forall>m. llm w i = Raises m \<longrightarrow> md = placeholder_error m))"

section \<open>fapp.py: scrape_job_listings and the upload view\<close>

text \<open>
  The inner loop of \<open>scrape_job_listings\<close> over the chunks of one page. The i-th call of
  \<open>_extract_job_details\<close> returns \<open>None\<close> when the model raises, and a listing is appended
  when it is truthy.
\<close>

fun extract_loop :: "world \<Rightarrow> nat \<Rightarrow> string list \<Rightarrow> json list \<Rightarrow> error + json list" where
  "extract_loop w i [] job_listings = Inr job_listings"
| "extract_loop w i (content # rest) job_listings =
     (case extract_llm w i of
        Raises m \<Rightarrow> extract_loop w (Suc i) rest job_listings
      | Returns response \<Rightarrow>
          (let job_listing = clean_json_response (w_loads w) response
           in case truthy job_listing of
                Inl e \<Rightarrow> Inl e
              | Inr t \<Rightarrow>
                  extract_loop w (Suc i) rest
                    (if t then job_listings @ [job_listing] else job_listings)))"

text \<open>The outer loop over the sites; \<open>i\<close> counts the calls of the model so far.\<close>

fun scrape_job_listings :: "world \<Rightarrow> nat \<Rightarrow> string list \<Rightarrow> json list \<Rightarrow> error + json list" where
  "scrape_job_listings w i [] job_listings = Inr job_listings"
| "scrape_job_listings w i (site # sites) job_listings =
     (let html_content = fst (scrape_website (web w) site 0)
      in if html_content = [] then scrape_job_listings w i sites job_listings
         else (let split_contents = split_dom_content (body_text w html_content) 2000
               in case extract_loop w i split_contents job_listings of
                    Inl e \<Rightarrow> Inl e
                  | Inr found \<Rightarrow> scrape_job_listings w (i + length split_contents) sites found))"

text \<open>\<open>filename.rsplit('.', 1)[1].lower() in ALLOWED_EXTENSIONS\<close>, after \<open>'.' in filename\<close>.\<close>

definition allowed_file :: "string \<Rightarrow> bool" where
  "allowed_file name =
     (CHR ''.'' \<in> set name \<and>
      List.member [''pdf'', ''docx'', ''doc'', ''rtf'']
        (lower (rev (takeWhile (\<lambda>c. c \<noteq> CHR ''.'') (rev name)))))"

text \<open>\<open>s.replace(' ', '%20')\<close> and the search URL built from the two form fields.\<close>

definition quote_spaces :: "string \<Rightarrow> string" where
  "quote_spaces s = concat (map (\<lambda>c. if c = CHR '' '' then ''%20'' else [c]) s)"

definition search_url :: "string \<Rightarrow> string \<Rightarrow> string" where
  "search_url location job_preference =
     ''https://www.linkedin.com/jobs/search/?keywords='' @ quote_spaces job_preference
       @ ''&location='' @ quote_spaces location"

text \<open>
  The POST request, the pages the view redirects to, the flashed messages, and the server's
  state: the content of \<open>output/top_5_matched_jobs.json\<close> (\<open>None\<close> while there is no such
  file), whether the uploaded file is in the upload folder, and the messages flashed.
\<close>

record request =
  has_resume_part :: bool
  filename :: string
  form_location :: string
  form_job_preference :: string

datatype page = UploadForm | ResultsView

datatype flash =
    NoFilePart
  | NoSelectedFile
  | FileTypeNotAllowed
  | NoJobsMatched
  | ErrorProcessingResume error
  | ProcessedSuccessfully

text \<open>The messages flashed in the category \<open>error\<close>: all but the last.\<close>

fun is_failure :: "flash \<Rightarrow> bool" where
  "is_failure ProcessedSuccessfully = False"
| "is_failure f = True"

record server =
  output_file :: "json list option"
  uploaded :: bool
  flashes :: "flash list"

text \<open>The \<open>try\<close> block of \<open>upload\<close>, entered with the file saved and the two fields cleaned.\<close>

definition upload_try :: "world \<Rightarrow> string \<Rightarrow> string \<Rightarrow> server \<Rightarrow> error + page \<times> server" where
  "upload_try w location job_preference s =
     (case scrape_job_listings w 0 [search_url location job_preference] [] of
        Inl e \<Rightarrow> Inl e
      | Inr job_listings \<Rightarrow>
     (case filter_jobs (w_repr w) job_listings location job_preference of
        Inl e \<Rightarrow> Inl e
      | Inr filtered_jobs \<Rightarrow>
          if filtered_jobs = []
          then Inr (UploadForm, s\<lparr>uploaded := False, flashes := flashes s @ [NoJobsMatched]\<rparr>)
          else (case match_resume_to_jobs w filtered_jobs of
                  Inl e \<Rightarrow> Inl e
                | Inr matched_jobs \<Rightarrow>
                    Inr (ResultsView,
                         s\<lparr>uploaded := False,
                           output_file :=
                             Some (take 5 (if matched_jobs = [] then filtered_jobs
                                           else matched_jobs)),
                           flashes := flashes s @ [ProcessedSuccessfully]\<rparr>))))"

text \<open>
  The view \<open>upload\<close> for a POST request. An exception of the \<open>try\<close> block is flashed by the
  handler; \<open>NotModelled\<close> is no exception and is passed on.
\<close>

definition upload :: "world \<Rightarrow> request \<Rightarrow> server \<Rightarrow> error + page \<times> server" where
  "upload w req s =
     (if \<not> has_resume_part req
      then Inr (UploadForm, s\<lparr>flashes := flashes s @ [NoFilePart]\<rparr>)
      else if filename req = []
      then Inr (UploadForm, s\<lparr>flashes := flashes s @ [NoSelectedFile]\<rparr>)
      else if \<not> allowed_file (filename req)
      then Inr (UploadForm, s\<lparr>flashes := flashes s @ [FileTypeNotAllowed]\<rparr>)
      else (let location = lower (strip (form_location req));
                job_preference = lower (strip (form_job_preference req))
            in case upload_try w location job_preference (s\<lparr>uploaded := True\<rparr>) of
                 Inr r \<Rightarrow> Inr r
               | Inl NotModelled \<Rightarrow> Inl NotModelled
               | Inl e \<Rightarrow>
                   Inr (UploadForm,
                        s\<lparr>uploaded := False,
                          flashes := flashes s @ [ErrorProcessingResume e]\<rparr>)))"

text \<open>
  A run in which the search page is scraped and the model extracts the Kathmandu job from
  it, and a request for that job with a PDF.
\<close>

definition listing_world :: world where
  \<open>listing_world =
     \<lparr>w_loads = json_loads, decode_text = (\<lambda>s. []), w_repr = (\<lambda>v. []), body_text = (\<lambda>h. h),
      web = (\<lambda>u. \<lparr>launches = True, navigates = True,
                   page_source = Some ''Software Engineer, Kathmandu'', quits = True\<rparr>),
      extract_llm =
        (\<lambda>i. Returns ''{"location": "Kathmandu, Nepal", "job_title": "Software Engineer"}''),
      llm = (\<lambda>i. Returns ''{"match_score": 80}''),
      saved = True, pdf_text = Some ''Jane Doe, engineer'',
      gemini = (\<lambda>t. Text ''{"Full Name": "Jane Doe"}'')\<rparr>\<close>

definition engineer_request :: request where
  "engineer_request =
     \<lparr>has_resume_part = True, filename = ''cv.pdf'', form_location = ''Kathmandu '',
      form_job_preference = ''Engineer''\<rparr>"

text \<open>
  The same run with a resume from which no text can be extracted, and with a hosted model
  that raises; and a server that holds the result file of an earlier request.
\<close>

definition no_text_world :: world where
  "no_text_world = listing_world\<lparr>pdf_text := Some []\<rparr>"

definition model_error_world :: world where
  "model_error_world = listing_world\<lparr>gemini := (\<lambda>t. CallRaises ''quota exceeded'')\<rparr>"

definition earlier_results :: server where
  "earlier_results = \<lparr>output_file = Some [pokhara_job], uploaded = False, flashes = []\<rparr>"

section \<open>Properties of the string operations\<close>

lemma split_on_ne: "split_on sep s \<noteq> []"
  by (induction s) (auto split: list.splits)

lemma join_split_on: "join [sep] (split_on sep s) = s"
proof (induction s)
  case Nil show ?case by simp
next
  case (Cons c cs)
  show ?case
  proof (cases "split_on sep cs")
    case Nil then show ?thesis using split_on_ne by blast
  next
    case (Cons p ps)
    then show ?thesis using Cons.IH
      by (cases ps) auto
  qed
qed

lemma join_snoc: "xs \<noteq> [] \<Longrightarrow> join sep (xs @ [y]) = join sep xs @ sep @ y"
  by (induction sep xs rule: join.induct) auto

lemma join_Cons: "ys \<noteq> [] \<Longrightarrow> join sep (x # ys) = x @ sep @ join sep ys"
  by (cases ys) auto

lemma join_append:
  "xs \<noteq> [] \<Longrightarrow> ys \<noteq> [] \<Longrightarrow> join sep (xs @ ys) = join sep xs @ sep @ join sep ys"
  by (induction sep xs rule: join.induct) (auto simp: join_Cons)

lemma join_merge:
  "join sep ((chunks @ [a @ sep @ p]) @ ps) = join sep ((chunks @ [a]) @ p # ps)"
proof -
  have "join sep ([a @ sep @ p] @ ps) = join sep ([a] @ p # ps)"
    by (cases ps) auto
  then show ?thesis
    by (cases "chunks = []") (simp_all add: join_append)
qed

lemma length_strip_le: "length (strip s) \<le> length s"
  unfolding strip_def lstrip_def rstrip_def
  by (metis length_dropWhile_le length_rev le_trans)

lemma strip_pad: 
  assumes "\<forall>c\<in>set ws. is_space c" "trimmed b"
  shows "strip (ws @ b) = b"
proof -
  from assms(2) have b: "b \<noteq> []" "\<not> is_space (hd b)" "\<not> is_space (last b)" by (auto simp: trimmed_def)
  have "dropWhile is_space (ws @ b) = b"
    using assms(1) b by (induction ws) (auto simp: dropWhile_eq_self_iff neq_Nil_conv)
  moreover have "rev (dropWhile is_space (rev b)) = b"
    using b by (cases b rule: rev_cases) auto
  ultimately show ?thesis by (simp add: strip_def lstrip_def rstrip_def)
qed

lemma padded_ne: "padded cur \<Longrightarrow> cur \<noteq> []"
  by (auto simp: padded_def trimmed_def)

lemma trimmed_padded: "trimmed p \<Longrightarrow> padded p"
  unfolding padded_def by (rule exI[of _ "[]"]) simp

lemma strip_trimmed: "trimmed p \<Longrightarrow> strip p = p"
  using strip_pad[of "[]" p] by simp

lemma is_space_nl: "is_space nl"
  by (simp add: is_space_def nl_def)

lemma trimmed_app: "trimmed b \<Longrightarrow> trimmed p \<Longrightarrow> trimmed (b @ [nl] @ p)"
  by (auto simp: trimmed_def)

lemma padded_app:
  assumes "padded cur" "trimmed p"
  shows "padded (cur @ [nl] @ p)" "strip (cur @ [nl] @ p) = strip cur @ [nl] @ p"
proof -
  from assms(1) obtain ws b where c: "cur = ws @ b" "\<forall>c\<in>set ws. is_space c" "trimmed b"
    by (auto simp: padded_def)
  have t: "trimmed (b @ [nl] @ p)" using c(3) assms(2) by (rule trimmed_app)
  have e: "cur @ [nl] @ p = ws @ (b @ [nl] @ p)" using c(1) by simp
  show "padded (cur @ [nl] @ p)" unfolding padded_def using e c(2) t by blast
  show "strip (cur @ [nl] @ p) = strip cur @ [nl] @ p"
    using strip_pad[OF c(2) t] strip_pad[OF c(2) c(3)] c(1) by simp
qed

lemma chunk_loop_join:
  assumes "padded cur" "\<forall>p\<in>set ps. trimmed p" "chunk_loop m ps chunks cur = (chunks', cur')"
  shows "padded cur' \<and> join [nl] (chunks' @ [strip cur']) = join [nl] ((chunks @ [strip cur]) @ ps)"
  using assms
proof (induction ps arbitrary: chunks cur)
  case Nil
  then show ?case by simp
next
  case (Cons p ps)
  have tp: "trimmed p" and tps: "\<forall>p\<in>set ps. trimmed p" using Cons.prems(2) by auto
  show ?case
  proof (cases "int (length cur) + int (length p) + 1 > m")
    case True
    then have "chunk_loop m ps (chunks @ [strip cur]) p = (chunks', cur')"
      using Cons.prems(3) by simp
    from Cons.IH[OF trimmed_padded[OF tp] tps this]
    show ?thesis by (simp add: strip_trimmed[OF tp])
  next
    case False
    then have "chunk_loop m ps chunks (cur @ [nl] @ p) = (chunks', cur')"
      using Cons.prems(3) by simp
    from Cons.IH[OF padded_app(1)[OF Cons.prems(1) tp] tps this]
    have "padded cur'" and
      j: "join [nl] (chunks' @ [strip cur']) = join [nl] ((chunks @ [strip (cur @ [nl] @ p)]) @ ps)"
      by auto
    have "join [nl] ((chunks @ [strip cur @ [nl] @ p]) @ ps) = join [nl] ((chunks @ [strip cur]) @ p # ps)"
      by (rule join_merge)
    then show ?thesis using j \<open>padded cur'\<close> padded_app(2)[OF Cons.prems(1) tp] by simp
  qed
qed


text \<open>
  C5 (amended). When every line of the text is non-empty and neither begins nor ends with
  whitespace, and the first line with its separator fits into \<open>max_chars\<close>, the chunks of
  \<open>split_dom_content\<close> joined by newlines are the original text.
\<close>

theorem split_dom_content_roundtrip:
  assumes "\<forall>p\<in>set (split_on nl content). trimmed p"
    and "int (length (hd (split_on nl content))) + 1 \<le> max_chars"
  shows "join [nl] (split_dom_content content max_chars) = content"
proof -
  obtain p ps where sp: "split_on nl content = p # ps"
    using split_on_ne[of nl content] by (cases "split_on nl content") auto
  have tp: "trimmed p" and tps: "\<forall>p\<in>set ps. trimmed p" using assms(1) sp by auto
  have fit: "\<not> int (length ([]::string)) + int (length p) + 1 > max_chars"
    using assms(2) sp by simp
  obtain chunks cur where r: "chunk_loop max_chars ps [] ([] @ [nl] @ p) = (chunks, cur)"
    by (cases "chunk_loop max_chars ps [] ([] @ [nl] @ p)") auto
  have pd: "padded ([] @ [nl] @ p)"
    unfolding padded_def using tp is_space_nl by (intro exI[of _ "[nl]"] exI[of _ p]) simp
  have st: "strip ([] @ [nl] @ p) = p"
    using strip_pad[of "[nl]" p] tp is_space_nl by simp
  from chunk_loop_join[OF pd tps r]
  have "padded cur" and j: "join [nl] (chunks @ [strip cur]) = join [nl] (p # ps)"
    unfolding st by simp_all
  have "chunk_loop max_chars (split_on nl content) [] [] = (chunks, cur)"
    using r fit sp by simp
  then have "split_dom_content content max_chars = chunks @ [strip cur]"
    using padded_ne[OF \<open>padded cur\<close>] by (simp add: split_dom_content_def)
  then show ?thesis using j sp join_split_on[of nl content] by simp
qed

text \<open>
  The amended C5 at a text of three lines cut into two chunks.
\<close>

theorem split_dom_content_roundtrip_witness:
  "list_all trimmed (split_on nl (''ab'' @ [nl] @ ''cd'' @ [nl] @ ''ef'')) \<and>
   int (length (hd (split_on nl (''ab'' @ [nl] @ ''cd'' @ [nl] @ ''ef'')))) + 1 \<le> 6 \<and>
   split_dom_content (''ab'' @ [nl] @ ''cd'' @ [nl] @ ''ef'') 6 = [''ab'' @ [nl] @ ''cd'', ''ef''] \<and>
   join [nl] (split_dom_content (''ab'' @ [nl] @ ''cd'' @ [nl] @ ''ef'') 6)
     = ''ab'' @ [nl] @ ''cd'' @ [nl] @ ''ef''"
proof -
  let ?c = "''ab'' @ [nl] @ ''cd'' @ [nl] @ ''ef''"
  have h1: "\<forall>p\<in>set (split_on nl ?c). trimmed p"
    by (simp add: trimmed_def is_space_def nl_def)
  have h2: "int (length (hd (split_on nl ?c))) + 1 \<le> 6"
    by (simp add: nl_def)
  have h3: "split_dom_content ?c 6 = [''ab'' @ [nl] @ ''cd'', ''ef'']"
    by (simp add: split_dom_content_def strip_def lstrip_def rstrip_def is_space_def nl_def)
  have h4: "list_all trimmed (split_on nl ?c)"
    using h1 by (simp only: list_all_iff)
  show ?thesis using h4 h2 h3 split_dom_content_roundtrip[OF h1 h2] by blast
qed

text \<open>
  C5 as stated fails: the chunk of the text \<open>'' a''\<close> has lost the leading blank, since
  every chunk is stripped.
\<close>

theorem split_dom_content_roundtrip_counterexample:
  "split_dom_content '' a'' 2000 = [''a''] \<and> join [nl] (split_dom_content '' a'' 2000) \<noteq> '' a''"
  by (simp add: split_dom_content_def strip_def lstrip_def rstrip_def is_space_def nl_def)

lemma chunk_loop_bound:
  assumes "chunk_loop m ps chunks cur = (chunks', cur')"
    and "\<forall>c\<in>set chunks. fits ls m c" and "fits ls m (strip cur)"
    and "set ps \<subseteq> set ls"
  shows "(\<forall>c\<in>set chunks'. fits ls m c) \<and> fits ls m (strip cur')"
  using assms
proof (induction ps arbitrary: chunks cur)
  case Nil then show ?case by simp
next
  case (Cons p ps)
  show ?case
  proof (cases "int (length cur) + int (length p) + 1 > m")
    case True
    then have r: "chunk_loop m ps (chunks @ [strip cur]) p = (chunks', cur')"
      using Cons.prems(1) by simp
    have "fits ls m (strip p)"
    proof (cases "int (length p) \<le> m")
      case True
      then show ?thesis using length_strip_le[of p] by (simp add: fits_def)
    next
      case False
      then have "m < int (length p)" "p \<in> set ls" using Cons.prems(4) by auto
      then show ?thesis unfolding fits_def by blast
    qed
    moreover have "\<forall>c\<in>set (chunks @ [strip cur]). fits ls m c"
      using Cons.prems(2,3) by simp
    moreover have "set ps \<subseteq> set ls" using Cons.prems(4) by simp
    ultimately show ?thesis using Cons.IH[OF r] by blast
  next
    case False
    then have r: "chunk_loop m ps chunks (cur @ [nl] @ p) = (chunks', cur')"
      using Cons.prems(1) by simp
    have "int (length (strip (cur @ [nl] @ p))) \<le> m"
      using False length_strip_le[of "cur @ [nl] @ p"] by simp
    then have "fits ls m (strip (cur @ [nl] @ p))"
      by (simp add: fits_def)
    moreover have "set ps \<subseteq> set ls" using Cons.prems(4) by simp
    ultimately show ?thesis using Cons.IH[OF r Cons.prems(2)] by blast
  qed
qed

text \<open>
  C6 (amended). For a non-negative \<open>max_chars\<close>, every chunk of \<open>split_dom_content\<close> has
  at most \<open>max_chars\<close> characters, unless it is the stripped form of a single line of the
  text that is itself longer than \<open>max_chars\<close>.
\<close>

theorem split_dom_content_bound:
  assumes "0 \<le> max_chars" "c \<in> set (split_dom_content content max_chars)"
  shows "int (length c) \<le> max_chars \<or>
         (\<exists>p\<in>set (split_on nl content). max_chars < int (length p) \<and> c = strip p)"
proof -
  obtain chunks cur where r: "chunk_loop max_chars (split_on nl content) [] [] = (chunks, cur)"
    by (cases "chunk_loop max_chars (split_on nl content) [] []") auto
  have "fits (split_on nl content) max_chars (strip [])"
    using assms(1) by (simp add: fits_def strip_def lstrip_def rstrip_def)
  from chunk_loop_bound[OF r _ this]
  have "(\<forall>c\<in>set chunks. fits (split_on nl content) max_chars c) \<and>
        fits (split_on nl content) max_chars (strip cur)" by simp
  moreover have "set (split_dom_content content max_chars) \<subseteq> set chunks \<union> {strip cur}"
    using r by (auto simp: split_dom_content_def)
  ultimately have "fits (split_on nl content) max_chars c" using assms(2) by blast
  then show ?thesis by (simp add: fits_def)
qed

text \<open>
  The amended C6 at a text whose second line is longer than \<open>max_chars\<close>.
\<close>

theorem split_dom_content_bound_witness:
  "(0::int) \<le> 3 \<and> ''abcd'' \<in> set (split_dom_content (''ab'' @ [nl] @ ''  abcd '') 3) \<and>
   (int (length ''abcd'') \<le> 3 \<or>
    (\<exists>p\<in>set (split_on nl (''ab'' @ [nl] @ ''  abcd '')). 3 < int (length p) \<and> ''abcd'' = strip p))"
proof -
  have h1: "(0::int) \<le> 3" by simp
  have h2: "''abcd'' \<in> set (split_dom_content (''ab'' @ [nl] @ ''  abcd '') 3)"
    by (simp add: split_dom_content_def strip_def lstrip_def rstrip_def is_space_def nl_def)
  show ?thesis using h1 h2 split_dom_content_bound[OF h1 h2] by blast
qed

text \<open>
  C6 as stated fails for a negative \<open>max_chars\<close>: the first chunk is the empty string,
  longer than \<open>- 1\<close>, and it is not a line of the text.
\<close>

theorem split_dom_content_bound_counterexample:
  "split_dom_content ''ab'' (- 1) = ['''', ''ab''] \<and> split_on nl ''ab'' = [''ab''] \<and>
   \<not> int (length '''') \<le> - 1 \<and> strip ''ab'' \<noteq> ''''"
  by (simp add: split_dom_content_def strip_def lstrip_def rstrip_def is_space_def nl_def)

section \<open>Properties of the parser\<close>

lemma scan_string_shorter: "scan_string s = Some (t, r) \<Longrightarrow> length r < length s"
proof (induction s arbitrary: t r rule: length_induct)
  case (1 s)
  note IH = "1.IH"[rule_format]
  show ?case
  proof (cases s)
    case Nil then show ?thesis using "1.prems" by simp
  next
    case s: (Cons c cs)
    show ?thesis
    proof (cases "c = CHR 0x22")
      case True then show ?thesis using "1.prems" s by simp
    next
      case nq: False
      show ?thesis
      proof (cases "c = CHR 0x5C")
        case bs: True
        show ?thesis
        proof (cases cs)
          case Nil then show ?thesis using "1.prems" s nq bs by simp
        next
          case cs: (Cons e es)
          show ?thesis
          proof (cases "e = CHR ''u''")
            case u: True
            from "1.prems" s nq bs cs u obtain h1 h2 h3 h4 es' t' where
              es: "es = h1 # h2 # h3 # h4 # es'" and rec: "scan_string es' = Some (t', r)"
              by (auto split: list.splits option.splits if_splits simp: Let_def)
            have "length es' < length s" using s cs es by simp
            from IH[OF this rec] show ?thesis using s cs es by simp
          next
            case nu: False
            from "1.prems" s nq bs cs nu obtain t' where rec: "scan_string es = Some (t', r)"
              by (auto split: option.splits)
            have "length es < length s" using s cs by simp
            from IH[OF this rec] show ?thesis using s cs by simp
          qed
        qed
      next
        case nbs: False
        from "1.prems" s nq nbs obtain t' where rec: "scan_string cs = Some (t', r)"
          by (auto split: if_splits)
        have "length cs < length s" using s by simp
        from IH[OF this rec] show ?thesis using s by simp
      qed
    qed
  qed
qed

lemma scan_int_part_shorter: "scan_int_part s = Some (ds, r) \<Longrightarrow> length r < length s"
proof (cases s)
  case Nil then show "scan_int_part s = Some (ds, r) \<Longrightarrow> ?thesis" by (simp add: scan_int_part_def)
next
  case (Cons c cs)
  assume a: "scan_int_part s = Some (ds, r)"
  show ?thesis
  proof (cases "c = CHR ''0''")
    case True then show ?thesis using a Cons by (simp add: scan_int_part_def)
  next
    case False
    then have d: "is_digit c" and r: "r = dropWhile is_digit s"
      using a Cons by (auto simp: scan_int_part_def split: if_splits)
    have "r = dropWhile is_digit cs" using r d Cons by simp
    then show ?thesis using Cons length_dropWhile_le[of is_digit cs] by simp
  qed
qed

lemma scan_frac_le: "scan_frac s = (f, r) \<Longrightarrow> length r \<le> length s"
proof -
  assume a: "scan_frac s = (f, r)"
  have "r = s \<or> (\<exists>d cs. s = CHR ''.'' # d # cs \<and> r = dropWhile is_digit (d # cs))"
    using a by (auto simp: scan_frac_def split: list.splits if_splits)
  then show ?thesis
  proof
    assume "r = s" then show ?thesis by simp
  next
    assume "\<exists>d cs. s = CHR ''.'' # d # cs \<and> r = dropWhile is_digit (d # cs)"
    then obtain d cs where "s = CHR ''.'' # d # cs" "r = dropWhile is_digit (d # cs)" by blast
    then show ?thesis using length_dropWhile_le[of is_digit "d # cs"] by simp
  qed
qed

lemma scan_exp_le: "scan_exp s = (f, r) \<Longrightarrow> length r \<le> length s"
proof -
  assume a: "scan_exp s = (f, r)"
  have "r = s \<or> (\<exists>e d cs. s = e # d # cs \<and> (r = dropWhile is_digit (d # cs) \<or> r = dropWhile is_digit cs))"
    using a by (auto simp: scan_exp_def split: list.splits if_splits)
  then show ?thesis
  proof
    assume "r = s" then show ?thesis by simp
  next
    assume "\<exists>e d cs. s = e # d # cs \<and> (r = dropWhile is_digit (d # cs) \<or> r = dropWhile is_digit cs)"
    then obtain e d cs where s: "s = e # d # cs"
      and r: "r = dropWhile is_digit (d # cs) \<or> r = dropWhile is_digit cs" by blast
    have "length (dropWhile is_digit (d # cs)) \<le> length (d # cs)" by (rule length_dropWhile_le)
    moreover have "length (dropWhile is_digit cs) \<le> length cs" by (rule length_dropWhile_le)
    ultimately show ?thesis using s r by auto
  qed
qed

lemma scan_number_shorter: "scan_number s = Some (v, r) \<Longrightarrow> length r < length s"
proof -
  assume a: "scan_number s = Some (v, r)"
  define s1 where "s1 = (case s of c # cs \<Rightarrow> if c = CHR ''-'' then cs else s | [] \<Rightarrow> s)"
  have l1: "length s1 \<le> length s" by (auto simp: s1_def split: list.splits)
  from a obtain ds s2 where i: "scan_int_part s1 = Some (ds, s2)"
    and r: "r = s2 \<or> r = snd (scan_exp (snd (scan_frac s2)))"
    by (auto simp: scan_number_def s1_def Let_def split: list.splits if_splits option.splits prod.splits)
  have l2: "length s2 < length s1" using i by (rule scan_int_part_shorter)
  have "length (snd (scan_exp (snd (scan_frac s2)))) \<le> length s2"
    using scan_frac_le[of s2] scan_exp_le[of "snd (scan_frac s2)"]
    by (metis le_trans prod.collapse)
  then show ?thesis using r l1 l2 by auto
qed

lemma skip_ws_le: "length (skip_ws s) \<le> length s"
  by (simp add: skip_ws_def length_dropWhile_le)

lemma skip_ws_Cons: "skip_ws s = d # ds \<Longrightarrow> length ds < length s"
  using skip_ws_le[of s] by simp

lemma drop_prefix_shorter: "prefix p s \<Longrightarrow> p \<noteq> [] \<Longrightarrow> length (drop (length p) s) < length s"
  by (auto simp: prefix_def)

lemma consumes_valueD:
  "consumes n \<Longrightarrow> parse_value n s = Some (v, r) \<Longrightarrow> length r < length s"
  unfolding consumes_def by blast

lemma consumes_elemsD:
  "consumes n \<Longrightarrow> parse_elems n s = Some (vs, r) \<Longrightarrow> length r < length s"
  unfolding consumes_def by blast

lemma consumes_membersD:
  "consumes n \<Longrightarrow> parse_members n s = Some (ms, r) \<Longrightarrow> length r < length s"
  unfolding consumes_def by blast

lemma consumes_value:
  assumes "consumes n" "parse_value (Suc n) s = Some (v, r)"
  shows "length r < length s"
proof (cases s)
  case Nil then show ?thesis using assms(2) by simp
next
  case s: (Cons c cs)
  consider (str) "c = CHR 0x22" | (obj) "c \<noteq> CHR 0x22" "c = CHR ''{''"
    | (arr) "c \<noteq> CHR 0x22" "c \<noteq> CHR ''{''" "c = CHR ''[''"
    | (other) "c \<noteq> CHR 0x22" "c \<noteq> CHR ''{''" "c \<noteq> CHR ''[''" by blast
  then show ?thesis
  proof cases
    case str
    then obtain t where "scan_string cs = Some (t, r)" using assms(2) s by auto
    then show ?thesis using scan_string_shorter s by fastforce
  next
    case obj
    then obtain d ds where sk: "skip_ws cs = d # ds"
      and r: "r = ds \<or> (\<exists>ms. parse_members n ds = Some (ms, r))"
      using assms(2) s by (auto split: list.splits if_splits)
    have "length r \<le> length ds"
      using r consumes_membersD[OF assms(1), of ds _ r] by auto
    then show ?thesis using skip_ws_Cons[OF sk] s by simp
  next
    case arr
    then obtain d ds where sk: "skip_ws cs = d # ds"
      and r: "r = ds \<or> (\<exists>vs. parse_elems n (d # ds) = Some (vs, r))"
      using assms(2) s by (auto split: list.splits if_splits)
    have "length r \<le> length (d # ds)"
      using r consumes_elemsD[OF assms(1), of "d # ds" _ r] by auto
    then show ?thesis using skip_ws_le[of cs] sk s by simp
  next
    case other
    have "(\<exists>p. p \<noteq> [] \<and> prefix p s \<and> r = drop (length p) s) \<or> scan_number s = Some (v, r)"
    proof -
      have e: "parse_value (Suc n) s =
          (if prefix ''null'' s then Some (JNull, drop 4 s)
           else if prefix ''true'' s then Some (JBool True, drop 4 s)
           else if prefix ''false'' s then Some (JBool False, drop 5 s)
           else (case scan_number s of
                   Some x \<Rightarrow> Some x
                 | None \<Rightarrow>
                     if prefix ''NaN'' s then Some (JFloat NaN, drop 3 s)
                     else if prefix ''Infinity'' s then Some (JFloat PosInf, drop 8 s)
                     else if prefix ''-Infinity'' s then Some (JFloat NegInf, drop 9 s)
                     else None))"
        by (simp only: s parse_value.simps list.case other if_False)
      consider (a) "prefix ''null'' s" | (b) "\<not> prefix ''null'' s" "prefix ''true'' s"
        | (c) "\<not> prefix ''null'' s" "\<not> prefix ''true'' s" "prefix ''false'' s"
        | (d) "\<not> prefix ''null'' s" "\<not> prefix ''true'' s" "\<not> prefix ''false'' s" by blast
      then show ?thesis
      proof cases
        case a
        then have "r = drop (length ''null'') s" using assms(2) unfolding e by (auto simp: eval_nat_numeral)
        then show ?thesis using a by blast
      next
        case b
        then have "r = drop (length ''true'') s" using assms(2) unfolding e by (auto simp: eval_nat_numeral)
        then show ?thesis using b by blast
      next
        case c
        then have "r = drop (length ''false'') s" using assms(2) unfolding e by (auto simp: eval_nat_numeral)
        then show ?thesis using c by blast
      next
        case d
        show ?thesis
        proof (cases "scan_number s")
          case (Some x)
          then show ?thesis using assms(2) d unfolding e by simp
        next
          case None
          then have f: "(if prefix ''NaN'' s then Some (JFloat NaN, drop 3 s)
                     else if prefix ''Infinity'' s then Some (JFloat PosInf, drop 8 s)
                     else if prefix ''-Infinity'' s then Some (JFloat NegInf, drop 9 s)
                     else None) = Some (v, r)"
            using assms(2) d unfolding e by simp
          consider (x) "prefix ''NaN'' s" | (y) "\<not> prefix ''NaN'' s" "prefix ''Infinity'' s"
            | (z) "\<not> prefix ''NaN'' s" "\<not> prefix ''Infinity'' s" "prefix ''-Infinity'' s"
            | (n) "\<not> prefix ''NaN'' s" "\<not> prefix ''Infinity'' s" "\<not> prefix ''-Infinity'' s"
            by blast
          then show ?thesis
          proof cases
            case x
            then have "r = drop (length ''NaN'') s" using f by (auto simp: eval_nat_numeral)
            then show ?thesis using x by blast
          next
            case y
            then have "r = drop (length ''Infinity'') s" using f by (auto simp: eval_nat_numeral)
            then show ?thesis using y by blast
          next
            case z
            then have "r = drop (length ''-Infinity'') s" using f by (auto simp: eval_nat_numeral)
            then show ?thesis using z by blast
          next
            case n
            then show ?thesis using f by simp
          qed
        qed
      qed
    qed
    then show ?thesis using drop_prefix_shorter scan_number_shorter by blast
  qed
qed

lemma consumes_elems:
  assumes "consumes n" "parse_elems (Suc n) s = Some (vs, r)"
  shows "length r < length s"
proof -
  from assms(2) obtain v r1 d ds where v: "parse_value n s = Some (v, r1)"
    and sk: "skip_ws r1 = d # ds"
    and r: "r = ds \<or> (\<exists>vs'. parse_elems n (skip_ws ds) = Some (vs', r))"
    by (auto split: option.splits list.splits if_splits)
  have l1: "length r1 < length s" using assms(1) v by (rule consumes_valueD)
  have l2: "length ds < length r1" using sk by (rule skip_ws_Cons)
  have "length r \<le> length ds"
    using r consumes_elemsD[OF assms(1), of "skip_ws ds" _ r] skip_ws_le[of ds] by auto
  then show ?thesis using l1 l2 by simp
qed

lemma consumes_members:
  assumes "consumes n" "parse_members (Suc n) s = Some (ms, r)"
  shows "length r < length s"
proof -
  from assms(2) obtain k r1 cs v r2 d ds where k: "scan_string s = Some (k, r1)"
    and c: "skip_ws r1 = CHR '':'' # cs"
    and v: "parse_value n (skip_ws cs) = Some (v, r2)"
    and sk: "skip_ws r2 = d # ds"
    and r: "r = ds \<or> (\<exists>q qs ms'. skip_ws ds = q # qs \<and> parse_members n qs = Some (ms', r))"
    by (auto split: option.splits list.splits if_splits)
  have l1: "length r1 < length s" using k by (rule scan_string_shorter)
  have l2: "length cs < length r1" using c by (rule skip_ws_Cons)
  have l3: "length r2 < length (skip_ws cs)" using assms(1) v by (rule consumes_valueD)
  have l4: "length ds < length r2" using sk by (rule skip_ws_Cons)
  have "length r \<le> length ds"
  proof -
    from r show ?thesis
    proof
      assume "r = ds" then show ?thesis by simp
    next
      assume "\<exists>q qs ms'. skip_ws ds = q # qs \<and> parse_members n qs = Some (ms', r)"
      then obtain q qs ms' where q: "skip_ws ds = q # qs" "parse_members n qs = Some (ms', r)"
        by blast
      from consumes_membersD[OF assms(1) q(2)] skip_ws_Cons[OF q(1)] show ?thesis by simp
    qed
  qed
  then show ?thesis using l1 l2 l3 l4 skip_ws_le[of cs] by simp
qed

lemma consumes_all: "consumes n"
proof (induction n)
  case 0 show ?case by (simp add: consumes_def)
next
  case (Suc n)
  show ?case unfolding consumes_def
    using consumes_value[OF Suc] consumes_elems[OF Suc] consumes_members[OF Suc] by blast
qed

lemma parse_value_cong:
  assumes "\<And>ds. length ds + 2 \<le> length s \<Longrightarrow> parse_members m ds = parse_members n ds"
    and "\<And>es. length es + 1 \<le> length s \<Longrightarrow> parse_elems m es = parse_elems n es"
  shows "parse_value (Suc m) s = parse_value (Suc n) s"
proof (cases s)
  case Nil then show ?thesis by simp
next
  case s: (Cons c cs)
  consider (str) "c = CHR 0x22" | (obj) "c \<noteq> CHR 0x22" "c = CHR ''{''"
    | (arr) "c \<noteq> CHR 0x22" "c \<noteq> CHR ''{''" "c = CHR ''[''"
    | (other) "c \<noteq> CHR 0x22" "c \<noteq> CHR ''{''" "c \<noteq> CHR ''[''" by blast
  then show ?thesis
  proof cases
    case str then show ?thesis using s by simp
  next
    case obj
    show ?thesis
    proof (cases "skip_ws cs")
      case Nil then show ?thesis using s obj by simp
    next
      case (Cons d ds)
      have "length ds + 2 \<le> length s" using skip_ws_Cons[OF Cons] s by simp
      from assms(1)[OF this] show ?thesis using s obj Cons by simp
    qed
  next
    case arr
    show ?thesis
    proof (cases "skip_ws cs")
      case Nil then show ?thesis using s arr by simp
    next
      case (Cons d ds)
      have "length (d # ds) + 1 \<le> length s" using skip_ws_le[of cs] Cons s by simp
      from assms(2)[OF this] show ?thesis using s arr Cons by simp
    qed
  next
    case other
    show ?thesis by (simp only: s parse_value.simps list.case other if_False)
  qed
qed

lemma parse_elems_cong:
  assumes "parse_value m s = parse_value n s"
    and "\<And>es. length es + 2 \<le> length s \<Longrightarrow> parse_elems m es = parse_elems n es"
  shows "parse_elems (Suc m) s = parse_elems (Suc n) s"
proof (cases "parse_value n s")
  case None then show ?thesis using assms(1) by simp
next
  case (Some a)
  obtain v r where a: "a = (v, r)" by (cases a)
  have lr: "length r < length s" using consumes_valueD[OF consumes_all] Some a by blast
  show ?thesis
  proof (cases "skip_ws r")
    case Nil then show ?thesis using assms(1) Some a by simp
  next
    case (Cons d ds)
    have "length (skip_ws ds) + 2 \<le> length s"
      using skip_ws_Cons[OF Cons] skip_ws_le[of ds] lr by simp
    from assms(2)[OF this] show ?thesis using assms(1) Some a Cons by simp
  qed
qed

lemma parse_members_cong:
  assumes "\<And>vs. length vs + 2 \<le> length s \<Longrightarrow> parse_value m vs = parse_value n vs"
    and "\<And>qs. length qs + 2 \<le> length s \<Longrightarrow> parse_members m qs = parse_members n qs"
  shows "parse_members (Suc m) s = parse_members (Suc n) s"
proof (cases "scan_string s")
  case None then show ?thesis by simp
next
  case (Some a)
  obtain k r1 where a: "a = (k, r1)" by (cases a)
  have l1: "length r1 < length s" using scan_string_shorter Some a by blast
  show ?thesis
  proof (cases "skip_ws r1")
    case Nil then show ?thesis using Some a by simp
  next
    case c: (Cons c cs)
    have l2: "length (skip_ws cs) + 2 \<le> length s"
      using skip_ws_Cons[OF c] skip_ws_le[of cs] l1 by simp
    note v = assms(1)[OF l2]
    show ?thesis
    proof (cases "parse_value n (skip_ws cs)")
      case None then show ?thesis using Some a c v by simp
    next
      case sv: (Some b)
      obtain x r2 where b: "b = (x, r2)" by (cases b)
      have l3: "length r2 < length (skip_ws cs)"
        using consumes_valueD[OF consumes_all] sv b by blast
      show ?thesis
      proof (cases "skip_ws r2")
        case Nil then show ?thesis using Some a c v sv b by simp
      next
        case d: (Cons d ds)
        show ?thesis
        proof (cases "skip_ws ds")
          case Nil then show ?thesis using Some a c v sv b d by simp
        next
          case q: (Cons q qs)
          have "length qs + 2 \<le> length s"
            using skip_ws_Cons[OF q] skip_ws_Cons[OF d] l3 l2 by simp
          from assms(2)[OF this] show ?thesis using Some a c v sv b d q by simp
        qed
      qed
    qed
  qed
qed

lemma steady_all: "steady n"
proof (induction n)
  case 0 show ?case by (simp add: steady_def)
next
  case (Suc n)
  have V: "parse_value (Suc n) s = parse_value n s" if "2 * length s + 1 \<le> n" for s
    using Suc that by (simp add: steady_def)
  have E: "parse_elems (Suc n) s = parse_elems n s" if "2 * length s + 2 \<le> n" for s
    using Suc that by (simp add: steady_def)
  have M: "parse_members (Suc n) s = parse_members n s" if "2 * length s + 2 \<le> n" for s
    using Suc that by (simp add: steady_def)
  have "parse_value (Suc (Suc n)) s = parse_value (Suc n) s" if "2 * length s + 1 \<le> Suc n" for s
    using that by (intro parse_value_cong M E) simp_all
  moreover have "parse_elems (Suc (Suc n)) s = parse_elems (Suc n) s"
    if "2 * length s + 2 \<le> Suc n" for s
    using that by (intro parse_elems_cong V E) simp_all
  moreover have "parse_members (Suc (Suc n)) s = parse_members (Suc n) s"
    if "2 * length s + 2 \<le> Suc n" for s
    using that by (intro parse_members_cong V M) simp_all
  ultimately show ?case by (simp add: steady_def)
qed

lemma parse_value_fuel:
  "2 * length s + 1 \<le> n \<Longrightarrow> parse_value (n + k) s = parse_value n s"
proof (induction k)
  case 0 show ?case by simp
next
  case (Suc k)
  have "parse_value (Suc (n + k)) s = parse_value (n + k) s"
    using steady_all[of "n + k"] Suc.prems by (simp add: steady_def)
  then show ?case using Suc by simp
qed

text \<open>
  The fuel of \<open>json_loads\<close> is enough: with any more fuel the result is the same, so \<open>None\<close>
  is always a text the grammar rejects.
\<close>

lemma json_loads_fuel:
  assumes "2 * length s + 2 \<le> n"
  shows "(case parse_value n (skip_ws s) of
            None \<Rightarrow> None
          | Some (v, r) \<Rightarrow> if skip_ws r = [] then Some v else None) = json_loads s"
proof -
  have l: "2 * length (skip_ws s) + 1 \<le> 2 * length s + 2" using skip_ws_le[of s] by simp
  have n: "2 * length s + 2 + (n - (2 * length s + 2)) = n" using assms by simp
  have "parse_value (2 * length s + 2 + (n - (2 * length s + 2))) (skip_ws s)
          = parse_value (2 * length s + 2) (skip_ws s)"
    using l by (rule parse_value_fuel)
  then have e: "parse_value n (skip_ws s) = parse_value (2 * length s + 2) (skip_ws s)"
    by (simp only: n)
  show ?thesis by (simp only: json_loads_def e)
qed

section \<open>Properties of the sanitizer\<close>

lemma index_of_None: "index_of c s = None \<longleftrightarrow> c \<notin> set s"
  by (induction s) auto

lemma rindex_of_None: "rindex_of c s = None \<longleftrightarrow> c \<notin> set s"
  by (simp add: rindex_of_def index_of_None)

lemma set_remove_all: "set (remove_all old s) \<subseteq> set s"
proof (induction old s rule: remove_all.induct)
  case (1 old) show ?case by simp
next
  case (2 old c cs)
  show ?case
  proof (cases "old \<noteq> [] \<and> prefix old (c # cs)")
    case True
    then have "set (remove_all old (c # cs)) \<subseteq> set (drop (length old) (c # cs))"
      using 2(1) by simp
    then show ?thesis using set_drop_subset[of "length old" "c # cs"] by blast
  next
    case False
    then show ?thesis using 2(2) by auto
  qed
qed

lemma set_strip: "set (strip s) \<subseteq> set s"
proof -
  have "set (rev (dropWhile is_space (rev (dropWhile is_space s)))) \<subseteq> set (dropWhile is_space s)"
    using set_dropWhileD[of _ is_space "rev (dropWhile is_space s)"] by auto
  then show ?thesis
    using set_dropWhileD[of _ is_space s] by (auto simp: strip_def lstrip_def rstrip_def)
qed

lemma clean_json_response_no_brace:
  assumes "CHR ''{'' \<notin> set raw \<or> CHR ''}'' \<notin> set raw"
  shows "clean_json_response loads raw =
    (case loads (strip (remove_all fence (remove_all (fence @ ''json'') raw))) of
       Some v \<Rightarrow> v | None \<Rightarrow> JObj [])"
proof -
  let ?r = "strip (remove_all fence (remove_all (fence @ ''json'') raw))"
  have sub: "set ?r \<subseteq> set raw"
    using set_strip set_remove_all by (meson subset_trans)
  then have "index_of (CHR ''{'') ?r = None \<or> rindex_of (CHR ''}'') ?r = None"
    using assms by (auto simp: index_of_None rindex_of_None)
  then show ?thesis
    by (auto simp: clean_json_response_def Let_def split: option.splits)
qed

lemma remove_all_keep:
  "old \<noteq> [] \<Longrightarrow> hd old \<notin> set obj \<Longrightarrow> remove_all old (obj @ rest) = obj @ remove_all old rest"
proof (induction obj)
  case Nil show ?case by simp
next
  case (Cons c cs)
  have "\<not> prefix old (c # cs @ rest)"
  proof
    assume "prefix old (c # cs @ rest)"
    then have "hd old = c" using Cons.prems(1) by (cases old) auto
    then show False using Cons.prems(2) by simp
  qed
  then show ?case using Cons by simp
qed

lemma prefix_before:
  assumes "x \<notin> set old"
  shows "prefix old (p @ x # rest) \<longleftrightarrow> prefix old p"
proof
  assume "prefix old (p @ x # rest)"
  then have "prefix old p \<or> (\<exists>us. us \<noteq> [] \<and> prefix us (x # rest) \<and> old = p @ us)"
    by (auto simp: prefix_append)
  then show "prefix old p"
  proof
    assume "\<exists>us. us \<noteq> [] \<and> prefix us (x # rest) \<and> old = p @ us"
    then obtain us where "us \<noteq> []" "prefix us (x # rest)" "old = p @ us" by blast
    then have "x \<in> set old" by (cases us) auto
    then show ?thesis using assms by simp
  qed simp
next
  assume "prefix old p" then show "prefix old (p @ x # rest)" by (rule prefix_prefix)
qed

lemma remove_all_cut:
  "old \<noteq> [] \<and> prefix old (c # cs) \<Longrightarrow>
   remove_all old (c # cs) = remove_all old (drop (length old) (c # cs))"
  by simp

lemma remove_all_skip:
  "\<not> (old \<noteq> [] \<and> prefix old (c # cs)) \<Longrightarrow> remove_all old (c # cs) = c # remove_all old cs"
  by auto

lemma remove_all_before:
  assumes "x \<notin> set old"
  shows "remove_all old (p @ x # rest) = remove_all old p @ remove_all old (x # rest)"
  using assms
proof (induction old p rule: remove_all.induct)
  case (1 old) show ?case by (simp del: remove_all.simps(2))
next
  case (2 old c cs)
  have e: "prefix old (c # (cs @ x # rest)) \<longleftrightarrow> prefix old (c # cs)"
    using prefix_before[OF "2.prems", of "c # cs" rest] by simp
  show ?case
  proof (cases "old \<noteq> [] \<and> prefix old (c # cs)")
    case True
    then have len: "length old \<le> length (c # cs)" by (auto dest: prefix_length_le)
    have t: "old \<noteq> [] \<and> prefix old (c # (cs @ x # rest))" unfolding e by (rule True)
    have d: "drop (length old) (c # (cs @ x # rest)) = drop (length old) (c # cs) @ x # rest"
      using len drop_append[of "length old" "c # cs" "x # rest"] by (simp del: drop_Suc_Cons)
    have "remove_all old ((c # cs) @ x # rest) = remove_all old (drop (length old) (c # cs) @ x # rest)"
      using remove_all_cut[OF t] d by (simp del: remove_all.simps drop_Suc_Cons)
    also have "\<dots> = remove_all old (drop (length old) (c # cs)) @ remove_all old (x # rest)"
      by (rule "2.IH"(1)[OF True "2.prems"])
    also have "remove_all old (drop (length old) (c # cs)) = remove_all old (c # cs)"
      by (rule remove_all_cut[OF True, symmetric])
    finally show ?thesis .
  next
    case False
    have f: "\<not> (old \<noteq> [] \<and> prefix old (c # (cs @ x # rest)))"
      unfolding e by (rule False)
    have "remove_all old ((c # cs) @ x # rest) = c # remove_all old (cs @ x # rest)"
      using remove_all_skip[OF f] by (simp del: remove_all.simps)
    also have "\<dots> = c # (remove_all old cs @ remove_all old (x # rest))"
      using "2.IH"(2)[OF False "2.prems"] by (simp del: remove_all.simps)
    also have "\<dots> = remove_all old (c # cs) @ remove_all old (x # rest)"
      using remove_all_skip[OF False] by (simp del: remove_all.simps)
    finally show ?thesis .
  qed
qed

lemma dropWhile_keep:
  "X \<noteq> [] \<Longrightarrow> \<not> P (hd X) \<Longrightarrow> dropWhile P (a @ X) = dropWhile P a @ X"
  by (induction a) (auto simp: dropWhile_eq_self_iff)

lemma strip_around:
  assumes "obj \<noteq> []" "\<not> is_space (hd obj)" "\<not> is_space (last obj)"
  shows "strip (a @ obj @ b) = lstrip a @ obj @ rstrip b"
proof -
  have "lstrip (a @ obj @ b) = lstrip a @ obj @ b"
    unfolding lstrip_def using assms dropWhile_keep[of "obj @ b" is_space a] by simp
  moreover have "rstrip (lstrip a @ obj @ b) = lstrip a @ obj @ rstrip b"
  proof -
    have "rev (lstrip a @ obj @ b) = rev b @ (rev obj @ rev (lstrip a))" by simp
    moreover have "dropWhile is_space (rev b @ (rev obj @ rev (lstrip a)))
        = dropWhile is_space (rev b) @ (rev obj @ rev (lstrip a))"
      using assms by (intro dropWhile_keep) (auto simp: hd_rev)
    ultimately show ?thesis by (simp add: rstrip_def)
  qed
  ultimately show ?thesis by (simp add: strip_def)
qed

lemma index_of_first: "c \<notin> set a \<Longrightarrow> index_of c (a @ c # rest) = Some (length a)"
  by (induction a) auto

lemma rindex_of_last:
  assumes "c \<notin> set b"
  shows "rindex_of c (a @ c # b) = Some (length a)"
proof -
  have "index_of c (rev b @ c # rev a) = Some (length b)"
    using assms index_of_first[of c "rev b" "rev a"] by simp
  then show ?thesis by (simp add: rindex_of_def)
qed

lemma clean_json_response_span:
  assumes obj: "obj = CHR ''{'' # body @ [CHR ''}'']"
    and tick: "CHR 0x60 \<notin> set obj"
    and pre: "CHR ''{'' \<notin> set pre" and post: "CHR ''}'' \<notin> set post"
  shows "clean_json_response loads (pre @ obj @ post) =
    (case loads (strip (remove_all fence (remove_all (fence @ ''json'') (pre @ obj @ post)))) of
       Some v \<Rightarrow> v
     | None \<Rightarrow> (case loads (strip_ctrl obj) of Some v \<Rightarrow> v | None \<Rightarrow> JObj []))"
proof -
  define rm where "rm = (\<lambda>s. remove_all fence (remove_all (fence @ ''json'') s))"
  define a where "a = lstrip (rm pre)"
  define b where "b = rstrip (rm post)"
  have o1: "CHR ''{'' \<notin> set (fence @ ''json'')" "CHR ''{'' \<notin> set fence" by (simp_all add: fence_def)
  have k1: "hd (fence @ ''json'') \<notin> set (CHR ''{'' # body @ [CHR ''}''])"
           "hd fence \<notin> set (CHR ''{'' # body @ [CHR ''}''])"
    using tick obj by (simp_all add: fence_def)
  have ne: "fence @ ''json'' \<noteq> []" "fence \<noteq> []" by (simp_all add: fence_def)
  have "rm (pre @ obj @ post) = rm pre @ obj @ rm post"
  proof -
    have "remove_all (fence @ ''json'') (pre @ obj @ post)
        = remove_all (fence @ ''json'') pre @ obj @ remove_all (fence @ ''json'') post"
      using remove_all_before[OF o1(1), of pre "body @ [CHR ''}''] @ post"]
            remove_all_keep[OF ne(1) k1(1), of post] obj by simp
    moreover have "remove_all fence (p @ obj @ q) = remove_all fence p @ obj @ remove_all fence q" for p q
      using remove_all_before[OF o1(2), of p "body @ [CHR ''}''] @ q"]
            remove_all_keep[OF ne(2) k1(2), of q] obj by simp
    ultimately show ?thesis by (simp add: rm_def)
  qed
  moreover have "\<not> is_space (hd obj)" "\<not> is_space (last obj)" "obj \<noteq> []"
    using obj by (simp_all add: is_space_def)
  ultimately have r: "strip (rm (pre @ obj @ post)) = a @ obj @ b"
    using strip_around[of obj "rm pre" "rm post"] by (simp add: a_def b_def)
  have "set (rm s) \<subseteq> set s" for s
    unfolding rm_def using set_remove_all[of fence "remove_all (fence @ ''json'') s"]
      set_remove_all[of "fence @ ''json''" s] by (rule subset_trans)
  note rm_sub = this
  have "set a \<subseteq> set (rm pre)"
    unfolding a_def lstrip_def using set_dropWhileD[of _ is_space "rm pre"] by blast
  then have "set a \<subseteq> set pre" using rm_sub[of pre] by (rule subset_trans)
  then have ia: "index_of (CHR ''{'') (a @ obj @ b) = Some (length a)"
    using pre obj index_of_first[of "CHR ''{''" a "body @ [CHR ''}''] @ b"] by auto
  have "set b \<subseteq> set (rm post)"
    unfolding b_def rstrip_def using set_dropWhileD[of _ is_space "rev (rm post)"] by auto
  then have "set b \<subseteq> set post" using rm_sub[of post] by (rule subset_trans)
  then have ib: "rindex_of (CHR ''}'') (a @ obj @ b) = Some (length a + length body + 1)"
    using post obj rindex_of_last[of "CHR ''}''" b "a @ CHR ''{'' # body"] by auto
  have sl: "slice (a @ obj @ b) (length a) (Suc (Suc (length a + length body))) = obj"
    using obj by (simp add: slice_def)
  have r': "strip (remove_all fence (remove_all (fence @ ''json'') (pre @ obj @ post))) = a @ obj @ b"
    using r by (simp add: rm_def)
  show ?thesis
    unfolding clean_json_response_def Let_def r' ia ib
    by (simp add: sl split: option.splits)
qed

text \<open>
  C3 fails on the code. The text \<open>85\<close> has neither brace and is valid JSON, so the first
  \<open>json.loads\<close> succeeds and the sanitizer returns the integer 85, not the empty mapping,
  against its own return annotation \<open>Dict\<close>.
\<close>

theorem clean_json_response_returns_number:
  \<open>CHR ''{'' \<notin> set ''85'' \<and> CHR ''}'' \<notin> set ''85'' \<and> clean_json_response json_loads ''85'' = JInt 85\<close>
  by code_simp

text \<open>
  C4 (amended). A text \<open>pre @ ''{'' @ body @ ''}'' @ post\<close> whose object part has no
  backtick, whose prefix has no opening and whose suffix no closing brace: the sanitizer
  returns the parse of the whole text, fences removed and trimmed, when that is valid JSON,
  and otherwise the parse of the object part with its control characters removed (the
  empty mapping when that is not valid JSON either). On the scenario's response it returns
  the mapping of \<open>match_score\<close> to 85.
\<close>

theorem clean_json_response_embedded:
  \<open>(\<forall>loads pre body post.
      CHR 0x60 \<notin> set body \<and> CHR ''{'' \<notin> set pre \<and> CHR ''}'' \<notin> set post \<longrightarrow>
      clean_json_response loads (pre @ ''{'' @ body @ ''}'' @ post) =
        (case loads (strip (remove_all fence (remove_all (fence @ ''json'')
                       (pre @ ''{'' @ body @ ''}'' @ post)))) of
           Some v \<Rightarrow> v
         | None \<Rightarrow> (case loads (strip_ctrl (''{'' @ body @ ''}'')) of
                      Some v \<Rightarrow> v
                    | None \<Rightarrow> JObj [])))
    \<and> clean_json_response json_loads scenario_response = JObj [(''match_score'', JInt 85)]\<close>
proof (intro conjI allI impI)
  fix loads pre body post
  assume a: "CHR 0x60 \<notin> set body \<and> CHR ''{'' \<notin> set pre \<and> CHR ''}'' \<notin> set post"
  have o: "''{'' @ body @ ''}'' = CHR ''{'' # body @ [CHR ''}'']" by simp
  have t: "CHR 0x60 \<notin> set (''{'' @ body @ ''}'')" using a by simp
  show "clean_json_response loads (pre @ ''{'' @ body @ ''}'' @ post) =
        (case loads (strip (remove_all fence (remove_all (fence @ ''json'')
                       (pre @ ''{'' @ body @ ''}'' @ post)))) of
           Some v \<Rightarrow> v
         | None \<Rightarrow> (case loads (strip_ctrl (''{'' @ body @ ''}'')) of
                      Some v \<Rightarrow> v
                    | None \<Rightarrow> JObj []))"
    using clean_json_response_span[OF o t, of pre post loads] a by simp
next
  show "clean_json_response json_loads scenario_response = JObj [(''match_score'', JInt 85)]"
    by code_simp
qed

text \<open>
  The amended C4 where the prose follows the object: the whole text is not valid JSON, the
  object part is.
\<close>

theorem clean_json_response_embedded_witness:
  \<open>clean_json_response json_loads ('''' @ ''{'' @ ''"match_score": 85'' @ ''}'' @ '' is my answer.'')
     = JObj [(''match_score'', JInt 85)]\<close>
proof -
  have h: \<open>CHR 0x60 \<notin> set ''"match_score": 85'' \<and> CHR ''{'' \<notin> set ''''
           \<and> CHR ''}'' \<notin> set '' is my answer.''\<close>
    by simp
  have e1: \<open>json_loads (strip (remove_all fence (remove_all (fence @ ''json'')
              ('''' @ ''{'' @ ''"match_score": 85'' @ ''}'' @ '' is my answer.'')))) = None\<close>
    by code_simp
  have e2: \<open>json_loads (strip_ctrl (''{'' @ ''"match_score": 85'' @ ''}''))
              = Some (JObj [(''match_score'', JInt 85)])\<close>
    by code_simp
  from clean_json_response_embedded h
  have \<open>clean_json_response json_loads ('''' @ ''{'' @ ''"match_score": 85'' @ ''}'' @ '' is my answer.'') =
        (case json_loads (strip (remove_all fence (remove_all (fence @ ''json'')
                       ('''' @ ''{'' @ ''"match_score": 85'' @ ''}'' @ '' is my answer.'')))) of
           Some v \<Rightarrow> v
         | None \<Rightarrow> (case json_loads (strip_ctrl (''{'' @ ''"match_score": 85'' @ ''}'')) of
                      Some v \<Rightarrow> v
                    | None \<Rightarrow> JObj []))\<close>
    by blast
  then show ?thesis unfolding e1 e2 by simp
qed

text \<open>
  C4 as stated fails: prose with braces of its own before the object moves the first
  opening brace, the span from it to the last closing brace is not valid JSON, and the
  sanitizer returns the empty mapping although the object alone parses.
\<close>

theorem clean_json_response_embedded_counterexample:
  \<open>clean_json_response json_loads ''Use {braces}: {"match_score": 85}'' = JObj [] \<and>
   json_loads ''{"match_score": 85}'' = Some (JObj [(''match_score'', JInt 85)])\<close>
  by code_simp

section \<open>Properties of the filter\<close>

lemma filter_loop_all:
  "\<forall>j\<in>set js. job_kept repr l k j = Inr True \<Longrightarrow> filter_loop repr l k js acc = Inr (acc @ js)"
  by (induction js arbitrary: acc) auto

lemma filter_loop_Inr:
  "filter_loop repr l k js acc = Inr f \<Longrightarrow>
   f = acc @ filter (\<lambda>j. job_kept repr l k j = Inr True) js"
proof (induction js arbitrary: acc)
  case Nil then show ?case by simp
next
  case (Cons j js)
  then obtain b where b: "job_kept repr l k j = Inr b"
    by (cases "job_kept repr l k j") auto
  with Cons.prems have "filter_loop repr l k js (if b then acc @ [j] else acc) = Inr f" by simp
  from Cons.IH[OF this] b show ?case by (cases b) auto
qed

lemma filter_jobs_Inr:
  assumes "filter_jobs repr jobs location keyword = Inr out"
  shows "out = take 5 (filter (\<lambda>j. job_kept repr (lower location) (lower keyword) j = Inr True) jobs)"
proof -
  from assms obtain f where f: "filter_loop repr (lower location) (lower keyword) jobs [] = Inr f"
    and o: "out = take 5 f"
    by (auto simp: filter_jobs_def split: sum.splits)
  from filter_loop_Inr[OF f] o show ?thesis by simp
qed

text \<open>
  The loop's test is the specification's: \<open>in\<close> is the substring relation, and on a job
  listing the body of the loop appends the job exactly when it passes the location test
  and the keyword test.
\<close>

lemma is_in_sublist: "is_in k s = sublist k s"
  by (induction s) (simp_all add: sublist_Cons_right)

lemma lower_Nil_iff: "lower s = [] \<longleftrightarrow> s = []"
  by (simp add: lower_def)

lemma any_req_strings_of:
  "list_all is_str rs \<Longrightarrow>
   any_req k rs = Inr (list_ex (\<lambda>r. sublist k (lower r)) (strings_of rs))"
proof (induction rs)
  case Nil then show ?case by simp
next
  case (Cons r rs)
  then obtain s where "r = JStr s" by (cases r) auto
  then show ?case using Cons by (simp add: is_in_sublist)
qed

lemma keyword_match_listing:
  assumes "listing (JObj d)"
  shows "keyword_match (lower keyword) (lower (field_text repr (JObj d) ''job_title''))
           (lower (field_text repr (JObj d) ''description'')) (JObj d)
         = Inr (passes_keyword_test repr keyword (JObj d))"
proof (cases "map_of d ''requirements''")
  case None
  then show ?thesis
    by (simp add: keyword_match_def passes_keyword_test_def requirement_strings_def is_in_sublist)
next
  case (Some v)
  then obtain rs where v: "v = JList rs" and s: "list_all is_str rs"
    using assms by (cases v) (simp_all add: listing_def)
  show ?thesis
    using Some v any_req_strings_of[OF s, of "lower keyword"]
    by (simp add: keyword_match_def passes_keyword_test_def requirement_strings_def is_in_sublist)
qed

lemma field_text_get:
  "lower (py_str repr (case map_of d key of None \<Rightarrow> JStr [] | Some v \<Rightarrow> v))
   = lower (field_text repr (JObj d) key)"
  by (cases "map_of d key") (simp_all add: field_text_def)

lemma job_kept_listing:
  assumes "listing job"
  shows "job_kept repr (lower location) (lower keyword) job
         = Inr (passes_location_test repr location job \<and> passes_keyword_test repr keyword job)"
proof -
  from assms obtain d where d: "job = JObj d" by (cases job) (simp_all add: listing_def)
  have l: "location_match (lower location) (lower (field_text repr (JObj d) ''location''))
           = passes_location_test repr location (JObj d)"
    by (auto simp: location_match_def passes_location_test_def is_in_sublist lower_Nil_iff)
  show ?thesis
    unfolding d job_kept_def py_get.simps sum.case Let_def field_text_get
      keyword_match_listing[OF assms[unfolded d]] l ..
qed

lemma filter_loop_pred:
  "\<forall>j\<in>set js. job_kept repr l k j = Inr (P j) \<Longrightarrow>
   filter_loop repr l k js acc = Inr (acc @ filter P js)"
  by (induction js arbitrary: acc) auto

lemma filter_jobs_listings:
  assumes "list_all listing jobs"
  shows "filter_jobs repr jobs location keyword
         = Inr (take 5 (filter (\<lambda>job. passes_location_test repr location job \<and>
                                       passes_keyword_test repr keyword job) jobs))"
proof -
  have "\<forall>j\<in>set jobs. job_kept repr (lower location) (lower keyword) j
          = Inr (passes_location_test repr location j \<and> passes_keyword_test repr keyword j)"
    using assms by (simp add: list_all_iff job_kept_listing)
  from filter_loop_pred[OF this, of "[]"] show ?thesis by (simp add: filter_jobs_def)
qed

text \<open>
  C8. Whenever \<open>filter_jobs\<close> returns a list, filtering that list again with the same
  location and keyword returns it unchanged, and the list is the first five jobs, in their
  order, that the loop appends. On job listings \<open>filter_jobs\<close> returns the first five jobs,
  in their order, that pass both the location substring test and the keyword substring
  test.
\<close>

theorem filter_jobs_idempotent:
  "(\<forall>repr jobs location keyword out.
       filter_jobs repr jobs location keyword = Inr out \<longrightarrow>
       filter_jobs repr out location keyword = Inr out \<and>
       out = take 5 (filter (\<lambda>job. job_kept repr (lower location) (lower keyword) job = Inr True) jobs))
   \<and> (\<forall>repr jobs location keyword.
       list_all listing jobs \<longrightarrow>
       filter_jobs repr jobs location keyword
         = Inr (take 5 (filter (\<lambda>job. passes_location_test repr location job \<and>
                                       passes_keyword_test repr keyword job) jobs)))"
proof (intro conjI allI impI)
  fix repr jobs location keyword out
  assume a: "filter_jobs repr jobs location keyword = Inr out"
  let ?P = "\<lambda>j. job_kept repr (lower location) (lower keyword) j = Inr True"
  show o: "out = take 5 (filter ?P jobs)" using a by (rule filter_jobs_Inr)
  then have "set out \<subseteq> set (filter ?P jobs)" using set_take_subset by metis
  then have "\<forall>j\<in>set out. ?P j" by auto
  then have "filter_loop repr (lower location) (lower keyword) out [] = Inr ([] @ out)"
    by (rule filter_loop_all)
  moreover have "take 5 out = out" using o by simp
  ultimately show "filter_jobs repr out location keyword = Inr out" by (simp add: filter_jobs_def)
next
  fix repr :: "json \<Rightarrow> string" and jobs location keyword
  assume "list_all listing jobs"
  then show "filter_jobs repr jobs location keyword
         = Inr (take 5 (filter (\<lambda>job. passes_location_test repr location job \<and>
                                       passes_keyword_test repr keyword job) jobs))"
    by (rule filter_jobs_listings)
qed

text \<open>
  C8 at four jobs, of which one passes the location test only, one the keyword test only,
  one neither, and the job of the specification's scenario both: that one alone is kept,
  and filtering the result again returns it unchanged.
\<close>

theorem filter_jobs_idempotent_witness:
  "filter_jobs (\<lambda>v. []) [kathmandu_accountant, kathmandu_job, pokhara_developer, pokhara_job]
      ''Kathmandu'' ''engineer'' = Inr [kathmandu_job]
   \<and> filter_jobs (\<lambda>v. []) [kathmandu_job] ''Kathmandu'' ''engineer'' = Inr [kathmandu_job]
   \<and> map (\<lambda>job. (passes_location_test (\<lambda>v. []) ''Kathmandu'' job,
                   passes_keyword_test (\<lambda>v. []) ''engineer'' job))
        [kathmandu_accountant, kathmandu_job, pokhara_developer, pokhara_job]
      = [(True, False), (True, True), (False, True), (False, False)]"
proof -
  have l: "list_all listing [kathmandu_accountant, kathmandu_job, pokhara_developer, pokhara_job]"
    by code_simp
  have t: "map (\<lambda>job. (passes_location_test (\<lambda>v. []) ''Kathmandu'' job,
                   passes_keyword_test (\<lambda>v. []) ''engineer'' job))
        [kathmandu_accountant, kathmandu_job, pokhara_developer, pokhara_job]
      = [(True, False), (True, True), (False, True), (False, False)]"
    by code_simp
  from t have p:
    "passes_location_test (\<lambda>v. []) ''Kathmandu'' kathmandu_accountant"
    "\<not> passes_keyword_test (\<lambda>v. []) ''engineer'' kathmandu_accountant"
    "passes_location_test (\<lambda>v. []) ''Kathmandu'' kathmandu_job"
    "passes_keyword_test (\<lambda>v. []) ''engineer'' kathmandu_job"
    "\<not> passes_location_test (\<lambda>v. []) ''Kathmandu'' pokhara_developer"
    "passes_keyword_test (\<lambda>v. []) ''engineer'' pokhara_developer"
    "\<not> passes_location_test (\<lambda>v. []) ''Kathmandu'' pokhara_job"
    by simp_all
  have h: "filter_jobs (\<lambda>v. []) [kathmandu_accountant, kathmandu_job, pokhara_developer, pokhara_job]
      ''Kathmandu'' ''engineer'' = Inr [kathmandu_job]"
    using filter_jobs_idempotent[THEN conjunct2, rule_format, OF l, of "\<lambda>v. []" "''Kathmandu''" "''engineer''"] p
    by simp
  from filter_jobs_idempotent[THEN conjunct1, rule_format, OF h] h t show ?thesis by blast
qed

lemma lower_Nil: "lower [] = []" by (simp add: lower_def)

lemma is_in_Nil: "is_in [] s"
  by (cases s) auto

lemma job_kept_empty: "job_kept repr [] [] (JObj d) = Inr True"
  by (simp add: job_kept_def keyword_match_def location_match_def is_in_Nil Let_def)

text \<open>
  C10. With an empty keyword the keyword test passes whatever the job's fields are, and
  with empty keyword and empty location \<open>filter_jobs\<close> returns the first five jobs of a
  list of dicts, unchanged and in order.
\<close>

theorem filter_jobs_empty_criteria:
  "(\<forall>job_title job_description job. keyword_match (lower '''') job_title job_description job = Inr True)
   \<and> ((\<forall>j\<in>set jobs. \<exists>d. j = JObj d) \<longrightarrow> filter_jobs repr jobs '''' '''' = Inr (take 5 jobs))"
proof (intro conjI allI impI)
  fix job_title job_description job
  show "keyword_match (lower '''') job_title job_description job = Inr True"
    by (simp add: keyword_match_def lower_Nil is_in_Nil)
next
  assume "\<forall>j\<in>set jobs. \<exists>d. j = JObj d"
  then have "\<forall>j\<in>set jobs. job_kept repr [] [] j = Inr True"
    using job_kept_empty by auto
  then have "filter_loop repr [] [] jobs [] = Inr ([] @ jobs)" by (rule filter_loop_all)
  then show "filter_jobs repr jobs '''' '''' = Inr (take 5 jobs)"
    by (simp add: filter_jobs_def lower_Nil)
qed


text \<open>
  C10 at six jobs: with empty location and keyword the first five come back, in order.
\<close>

theorem filter_jobs_empty_criteria_witness:
  "filter_jobs (\<lambda>v. [])
     [kathmandu_job, pokhara_job, kathmandu_job, pokhara_job, kathmandu_job, pokhara_job] '''' ''''
   = Inr [kathmandu_job, pokhara_job, kathmandu_job, pokhara_job, kathmandu_job]"
proof -
  have h: "\<forall>j\<in>set [kathmandu_job, pokhara_job, kathmandu_job, pokhara_job, kathmandu_job,
                    pokhara_job]. \<exists>d. j = JObj d"
    by (simp add: kathmandu_job_def pokhara_job_def)
  from filter_jobs_empty_criteria[where repr = "\<lambda>v. []" and jobs =
         "[kathmandu_job, pokhara_job, kathmandu_job, pokhara_job, kathmandu_job, pokhara_job]"] h
  show ?thesis by simp
qed

text \<open>
  \<open>filter_jobs\<close> returns a list for every list of dicts whose requirements, where present,
  are lists of strings.
\<close>

lemma any_req_strings: "\<exists>b. any_req k (map JStr rs) = Inr b"
  by (induction rs) auto

lemma job_kept_returns:
  assumes "\<forall>v. map_of d ''requirements'' = Some v \<longrightarrow> (\<exists>rs. v = JList (map JStr rs))"
  shows "\<exists>b. job_kept repr l k (JObj d) = Inr b"
proof -
  have "\<exists>b. keyword_match k t ds (JObj d) = Inr b" for t ds
  proof (cases "map_of d ''requirements''")
    case None
    then show ?thesis by (auto simp: keyword_match_def)
  next
    case (Some v)
    then obtain rs where "v = JList (map JStr rs)" using assms by blast
    then show ?thesis using Some any_req_strings[of k rs] by (auto simp: keyword_match_def)
  qed
  then show ?thesis
    by (auto simp: job_kept_def Let_def split: sum.splits) (metis Inl_Inr_False)
qed

lemma filter_loop_returns:
  assumes "\<forall>j\<in>set jobs. \<exists>b. job_kept repr l k j = Inr b"
  shows "\<exists>out. filter_loop repr l k jobs acc = Inr out"
  using assms by (induction jobs arbitrary: acc) auto

lemma filter_jobs_returns:
  assumes "\<forall>j\<in>set jobs. \<exists>d. j = JObj d \<and>
             (\<forall>v. map_of d ''requirements'' = Some v \<longrightarrow> (\<exists>rs. v = JList (map JStr rs)))"
  shows "\<exists>out. filter_jobs repr jobs location keyword = Inr out"
proof -
  have "\<forall>j\<in>set jobs. \<exists>b. job_kept repr (lower location) (lower keyword) j = Inr b"
  proof
    fix j assume "j \<in> set jobs"
    then obtain d where "j = JObj d"
      "\<forall>v. map_of d ''requirements'' = Some v \<longrightarrow> (\<exists>rs. v = JList (map JStr rs))"
      using assms by blast
    then show "\<exists>b. job_kept repr (lower location) (lower keyword) j = Inr b"
      using job_kept_returns[of d repr "lower location" "lower keyword"] by simp
  qed
  from filter_loop_returns[OF this, of "[]"] show ?thesis
    by (auto simp: filter_jobs_def)
qed

section \<open>Properties of the matcher and of the scraper\<close>

lemma insort_key_pair:
  "insort_key fst (f x, x) (map (\<lambda>x. (f x, x)) ys) = map (\<lambda>x. (f x, x)) (insort_key f x ys)"
  by (induction ys) auto

lemma sort_key_pair:
  "sort_key fst (map (\<lambda>x. (f x, x)) xs) = map (\<lambda>x. (f x, x)) (sort_key f xs)"
  by (induction xs) (simp_all add: insort_key_pair)

lemma sort_zip_keys:
  assumes "zip ns xs = map (\<lambda>x. (f x, x)) xs"
  shows "rev (map snd (sort_key fst (rev (zip ns xs)))) = rev (sort_key f (rev xs))"
proof -
  have "rev (zip ns xs) = map (\<lambda>x. (f x, x)) (rev xs)" by (simp add: assms rev_map)
  then show ?thesis by (simp add: sort_key_pair comp_def)
qed

lemma sorted_desc_sort_key:
  "sorted_wrt (\<lambda>a b. f b \<le> f a) (rev (sort_key f xs))"
proof -
  have "sorted (map f (sort_key f xs))" by (rule sorted_sort_key)
  then show ?thesis by (simp add: sorted_map sorted_wrt_rev)
qed

lemma stable_desc_sort_key:
  "filter (\<lambda>x. f x = k) (rev (sort_key f (rev xs))) = filter (\<lambda>x. f x = k) xs"
proof -
  have "filter (\<lambda>x. f x = k) (sort_key f (rev xs)) = filter (\<lambda>x. f x = k) (rev xs)"
    by (rule sort_key_stable)
  then show ?thesis by (simp add: rev_filter[symmetric])
qed

lemma keys_of_length: "keys_of xs = Inr ks \<Longrightarrow> length ks = length xs"
  by (induction xs arbitrary: ks) (auto split: sum.splits)

lemma those_length: "those xs = Some ys \<Longrightarrow> length ys = length xs"
  by (induction xs arbitrary: ys) (auto split: option.splits)

lemma keys_scores:
  "keys_of xs = Inr ks \<Longrightarrow> those (map num_key ks) = Some ns \<Longrightarrow>
   zip ns xs = map (\<lambda>x. (score_of x, x)) xs"
proof (induction xs arbitrary: ks ns)
  case Nil then show ?case by simp
next
  case (Cons x xs)
  from Cons.prems(1) obtain k ks' where k: "score_key x = Inr k" "keys_of xs = Inr ks'" "ks = k # ks'"
    by (auto split: sum.splits)
  from Cons.prems(2) k(3) obtain n ns' where n: "num_key k = Some n" "those (map num_key ks') = Some ns'"
      "ns = n # ns'"
    by (auto split: option.splits)
  have "score_of x = n" using k(1) n(1) by (simp add: score_of_def)
  then show ?case using Cons.IH[OF k(2) n(2)] n(3) by simp
qed

lemma keys_of_numeric:
  assumes "list_all has_number xs"
  shows "\<exists>ks ns. keys_of xs = Inr ks \<and> those (map num_key ks) = Some ns"
  using assms
proof (induction xs)
  case Nil then show ?case by simp
next
  case (Cons x xs)
  then obtain ks ns where "keys_of xs = Inr ks" "those (map num_key ks) = Some ns" by auto
  moreover obtain k n where "score_key x = Inr k" "num_key k = Some n"
    using Cons.prems by (auto simp: has_number_def split: sum.splits)
  ultimately show ?case by simp
qed

lemma sort_by_score_desc_numbers:
  assumes "list_all has_number xs"
  shows "sort_by_score_desc xs = Inr (rev (sort_key score_of (rev xs)))"
proof -
  from keys_of_numeric[OF assms] obtain ks ns where
    ks: "keys_of xs = Inr ks" and ns: "those (map num_key ks) = Some ns" by blast
  show ?thesis
  proof (cases "length xs < 2")
    case True
    then have "rev (sort_key score_of (rev xs)) = xs" by (cases xs; cases "tl xs") auto
    then show ?thesis using True ks by (simp add: sort_by_score_desc_def)
  next
    case False
    then show ?thesis
      using ks ns sort_zip_keys[OF keys_scores[OF ks ns]] by (simp add: sort_by_score_desc_def)
  qed
qed

lemma mset_sorted_zip:
  "length ns = length xs \<Longrightarrow> mset (rev (map snd (sort_key fst (rev (zip ns xs))))) = mset xs"
proof -
  assume l: "length ns = length xs"
  have "mset (rev (map snd (sort_key fst (rev (zip ns xs))))) = image_mset snd (mset (zip ns xs))"
    by simp
  also have "\<dots> = mset (map snd (zip ns xs))" by simp
  also have "\<dots> = mset xs" using l by simp
  finally show ?thesis .
qed

lemma sort_by_score_desc_mset:
  assumes "sort_by_score_desc xs = Inr out"
  shows "mset out = mset xs"
proof -
  from assms obtain ks where ks: "keys_of xs = Inr ks"
    by (auto simp: sort_by_score_desc_def split: sum.splits)
  note l = keys_of_length[OF ks]
  show ?thesis
  proof (cases "length xs < 2")
    case True then show ?thesis using assms ks by (simp add: sort_by_score_desc_def)
  next
    case False
    show ?thesis
    proof (cases "those (map num_key ks)")
      case (Some ns)
      then have "length ns = length xs" using those_length[OF Some] l by simp
      moreover have "out = rev (map snd (sort_key fst (rev (zip ns xs))))"
        using assms ks False Some by (simp add: sort_by_score_desc_def)
      ultimately show ?thesis by (simp only: mset_sorted_zip)
    next
      case None
      show ?thesis
      proof (cases "those (map str_key ks)")
        case (Some ss)
        then have "length ss = length xs" using those_length[OF Some] l by simp
        moreover have "out = rev (map snd (sort_key fst (rev (zip ss xs))))"
          using assms ks False None Some by (simp add: sort_by_score_desc_def)
        ultimately show ?thesis by (simp only: mset_sorted_zip)
      next
        case N2: None
        then show ?thesis using assms ks False None
          by (auto simp: sort_by_score_desc_def split: list.splits sum.splits if_splits)
      qed
    qed
  qed
qed

lemma num_key_is_number: "num_key k = Some n \<Longrightarrow> is_number k"
  by (cases k rule: num_key.cases) auto

lemma str_key_number: "is_number k \<Longrightarrow> str_key k = None"
  by (cases k) auto

lemma score_ge_numbers:
  assumes "has_number a" and "has_number b"
  shows "score_ge a b = (score_of b \<le> score_of a)"
proof -
  from assms obtain ka kb na nb where
    "score_key a = Inr ka" "num_key ka = Some na" "score_key b = Inr kb" "num_key kb = Some nb"
    by (auto simp: has_number_def split: sum.splits)
  then show ?thesis by (simp add: score_ge_def score_of_def num_key_is_number)
qed

lemma tied_numbers:
  assumes "has_number a"
  shows "tied x a = (has_number x \<and> score_of a = score_of x)"
proof (cases "has_number x")
  case True
  then show ?thesis using assms by (auto simp: tied_def score_ge_numbers)
next
  case False
  from assms obtain ka na where a: "score_key a = Inr ka" "num_key ka = Some na"
    by (auto simp: has_number_def split: sum.splits)
  have "\<not> score_ge x a"
  proof (cases "score_key x")
    case (Inl e) then show ?thesis by (simp add: score_ge_def)
  next
    case (Inr kx)
    then have n: "num_key kx = None" using False by (cases "num_key kx") (simp_all add: has_number_def)
    show ?thesis
    proof (cases "is_number kx")
      case True
      then show ?thesis using Inr a n by (simp add: score_ge_def num_key_is_number)
    next
      case F: False
      then show ?thesis using Inr a
        by (simp add: score_ge_def str_key_number[OF num_key_is_number[OF a(2)]]
            split: option.splits)
    qed
  qed
  then show ?thesis using False by (simp add: tied_def)
qed

lemma sort_by_score_desc_ranked:
  assumes "list_all has_number xs"
  shows "\<exists>out. sort_by_score_desc xs = Inr out \<and> mset out = mset xs \<and>
           sorted_wrt score_ge out \<and> (\<forall>x. filter (tied x) out = filter (tied x) xs)"
proof -
  let ?out = "rev (sort_key score_of (rev xs))"
  have s: "sort_by_score_desc xs = Inr ?out" by (rule sort_by_score_desc_numbers[OF assms])
  have m: "mset ?out = mset xs" by simp
  then have "set ?out = set xs" by (metis set_mset_mset)
  then have h: "\<forall>a\<in>set ?out. has_number a" using assms by (simp add: list_all_iff)
  have "sorted_wrt (\<lambda>a b. score_of b \<le> score_of a) ?out" by (rule sorted_desc_sort_key)
  then have o: "sorted_wrt score_ge ?out"
    by (rule sorted_wrt_mono_rel[rotated]) (use h in \<open>simp add: score_ge_numbers\<close>)
  have "filter (tied x) ?out = filter (tied x) xs" for x
  proof -
    have "filter (tied x) ?out = filter (\<lambda>a. has_number x \<and> score_of a = score_of x) ?out"
      by (rule filter_cong) (use h in \<open>simp_all add: tied_numbers\<close>)
    also have "\<dots> = filter (\<lambda>a. has_number x \<and> score_of a = score_of x) xs"
      using stable_desc_sort_key[of score_of "score_of x" xs] by (cases "has_number x") simp_all
    also have "\<dots> = filter (tied x) xs"
      by (rule filter_cong) (use assms in \<open>simp_all add: tied_numbers list_all_iff\<close>)
    finally show ?thesis .
  qed
  with s m o show ?thesis by blast
qed

lemma map_of_dict_set: "map_of (dict_set k v d) k = Some v"
  by (induction d) auto

lemma match_job_Inr:
  assumes "match_job w i job = Inr mj"
  shows "carries w i job mj"
proof -
  from assms obtain d where d: "job = JObj d"
    by (cases job) (auto simp: match_job_def try_match_def split: sum.splits error.splits)
  show ?thesis
  proof (cases "llm w i")
    case (Raises m)
    then have "mj = JObj (dict_set ''match_details'' (placeholder_error m) d)"
      using assms d by (simp add: match_job_def try_match_def)
    then show ?thesis using d Raises by (auto simp: carries_def)
  next
    case (Returns r)
    then obtain md where "mj = JObj (dict_set ''match_details'' md d)"
      using assms d
      by (auto simp: match_job_def try_match_def Let_def split: sum.splits error.splits if_splits)
    then show ?thesis using d Returns by (auto simp: carries_def)
  qed
qed

lemma match_loop_Inr:
  "match_loop w i jobs acc = Inr matched \<Longrightarrow>
   length matched = length acc + length jobs \<and> take (length acc) matched = acc \<and>
   (\<forall>n<length jobs. carries w (i + n) (jobs ! n) (matched ! (length acc + n)))"
proof (induction jobs arbitrary: i acc)
  case Nil then show ?case by simp
next
  case (Cons job jobs)
  then obtain mj where mj: "match_job w i job = Inr mj"
    and r: "match_loop w (Suc i) jobs (acc @ [mj]) = Inr matched"
    by (auto split: sum.splits)
  from Cons.IH[OF r]
  have len: "length matched = length acc + 1 + length jobs"
    and tk: "take (length acc + 1) matched = acc @ [mj]"
    and rest: "\<forall>n<length jobs. carries w (Suc i + n) (jobs ! n) (matched ! (length acc + 1 + n))"
    by simp_all
  have tk': "take (length acc) matched = acc"
  proof -
    have "take (length acc) (take (length acc + 1) matched) = take (length acc) (acc @ [mj])"
      by (simp only: tk)
    then show ?thesis by simp
  qed
  have "matched ! length acc = (take (length acc + 1) matched) ! length acc" by simp
  then have hd: "matched ! length acc = mj" by (simp only: tk) simp
  have "carries w (i + n) ((job # jobs) ! n) (matched ! (length acc + n))"
    if "n < length (job # jobs)" for n
  proof (cases n)
    case 0
    then show ?thesis using hd match_job_Inr[OF mj] by simp
  next
    case (Suc k)
    then have "k < length jobs" using that by simp
    then show ?thesis using rest Suc by simp
  qed
  then show ?case using len tk' by simp
qed

lemma match_resume_to_jobs_keeps:
  assumes "match_resume_to_jobs w jobs = Inr out"
    and "parse_resume_from_file w = Inr resume_data" and "py_contains ''error'' resume_data = Inr False"
  shows "\<exists>matched. mset out = mset matched \<and> length matched = length jobs \<and>
           (\<forall>n<length jobs. carries w n (jobs ! n) (matched ! n))"
proof -
  from assms obtain matched where m: "match_loop w 0 jobs [] = Inr matched"
    and s: "sort_by_score_desc matched = Inr out"
    by (auto simp: match_resume_to_jobs_def split: sum.splits)
  from match_loop_Inr[OF m] sort_by_score_desc_mset[OF s] show ?thesis by auto
qed

lemma carries_match_details:
  "carries w i job mj \<Longrightarrow> \<exists>md. py_get mj ''match_details'' (JObj []) = Inr md \<and> py_contains ''match_details'' mj = Inr True"
  by (auto simp: carries_def map_of_dict_set)

lemma placeholder_error_score:
  "py_get (placeholder_error m) ''match_score'' (JInt 0) = Inr (JInt 0) \<and>
   py_get (placeholder_error m) ''match_reasoning'' JNull = Inr (JStr ''Error during matching.'')"
  by (simp add: placeholder_error_def)

text \<open>
  C2 fails on f.py. When the model's call for the second of two jobs raises, the loop of
  f.py returns the first job only: the second is dropped. The loop of fapp.py keeps it,
  with the placeholder of score 0 (in general: \<open>match_resume_to_jobs_keeps\<close>).
\<close>

theorem match_resume_to_jobs_f_drops_job:
  \<open>match_resume_to_jobs_f (answering [''{"match_score": 90}'']) [titled ''A'', titled ''B'']
      = Inr [scored ''A'' 90] \<and>
   match_resume_to_jobs (answering [''{"match_score": 90}'']) [titled ''A'', titled ''B'']
      = Inr [scored ''A'' 90,
             JObj [(''job_title'', JStr ''B''),
                   (''match_details'', placeholder_error ''connection refused'')]]\<close>
  by code_simp

text \<open>
  C9 fails on the code. When the navigation raises, \<open>scrape_website\<close> returns the empty
  string, but \<open>driver.quit()\<close> is skipped: the session it launched is still running.
\<close>

theorem scrape_website_leaves_session:
  "scrape_website (\<lambda>url. unreachable) ''https://www.linkedin.com/jobs/search/'' 0 = ([], 1)"
  by (simp add: scrape_website_def unreachable_def)

lemma scrape_website_failure:
  "\<not> (launches (drv url) \<and> navigates (drv url) \<and> page_source (drv url) \<noteq> None \<and> quits (drv url))
   \<Longrightarrow> fst (scrape_website drv url n) = []"
  by (auto simp: scrape_website_def split: option.splits)

lemma scrape_website_success:
  "launches (drv url) \<Longrightarrow> navigates (drv url) \<Longrightarrow> page_source (drv url) = Some html \<Longrightarrow>
   quits (drv url) \<Longrightarrow> scrape_website drv url n = (html, n)"
  by (simp add: scrape_website_def)

text \<open>
  C7 (amended). When the resume parses and every matched job has a number other than NaN
  as its score (an \<open>int\<close>, a \<open>bool\<close> or a float), \<open>match_resume_to_jobs\<close> returns a list:
  a rearrangement of the matched jobs in which, for any two entries A before B, A's score
  \<open>>=\<close> B's score, and in which the jobs tied with any one job keep the order the loop
  produced them in. For the seven jobs with the scores 90, 40, 90, 10, 70, 0, 55 the first
  five results are A, C, E, G, B with the scores 90, 90, 70, 55, 40.
\<close>

theorem match_resume_to_jobs_ranked:
  "(\<forall>w jobs resume_data matched.
       parse_resume_from_file w = Inr resume_data \<and> py_contains ''error'' resume_data = Inr False \<and>
       match_loop w 0 jobs [] = Inr matched \<and> list_all has_number matched \<longrightarrow>
       (\<exists>out. match_resume_to_jobs w jobs = Inr out \<and> mset out = mset matched \<and>
              sorted_wrt score_ge out \<and>
              (\<forall>x. filter (tied x) out = filter (tied x) matched)))
   \<and> (case match_resume_to_jobs (answering seven_answers) seven_jobs of
         Inl e \<Rightarrow> []
       | Inr out \<Rightarrow> map (\<lambda>x. (py_get x ''job_title'' JNull, score_key x)) (take 5 out))
      = [(Inr (JStr ''A''), Inr (JInt 90)), (Inr (JStr ''C''), Inr (JInt 90)),
         (Inr (JStr ''E''), Inr (JInt 70)), (Inr (JStr ''G''), Inr (JInt 55)),
         (Inr (JStr ''B''), Inr (JInt 40))]"
proof (intro conjI allI impI)
  fix w jobs resume_data matched
  assume a: "parse_resume_from_file w = Inr resume_data \<and> py_contains ''error'' resume_data = Inr False \<and>
       match_loop w 0 jobs [] = Inr matched \<and> list_all has_number matched"
  then have "match_resume_to_jobs w jobs = sort_by_score_desc matched"
    by (simp add: match_resume_to_jobs_def)
  then show "\<exists>out. match_resume_to_jobs w jobs = Inr out \<and> mset out = mset matched \<and>
              sorted_wrt score_ge out \<and>
              (\<forall>x. filter (tied x) out = filter (tied x) matched)"
    using sort_by_score_desc_ranked[of matched] a by simp
next
  show "(case match_resume_to_jobs (answering seven_answers) seven_jobs of
         Inl e \<Rightarrow> []
       | Inr out \<Rightarrow> map (\<lambda>x. (py_get x ''job_title'' JNull, score_key x)) (take 5 out))
      = [(Inr (JStr ''A''), Inr (JInt 90)), (Inr (JStr ''C''), Inr (JInt 90)),
         (Inr (JStr ''E''), Inr (JInt 70)), (Inr (JStr ''G''), Inr (JInt 55)),
         (Inr (JStr ''B''), Inr (JInt 40))]"
    by code_simp
qed

text \<open>
  C7 at three jobs with the scores 40, 90.5 and 40.0: B comes first, and A stays before C.
\<close>

theorem match_resume_to_jobs_ranked_witness:
  \<open>match_resume_to_jobs (answering three_answers) [titled ''A'', titled ''B'', titled ''C'']
     = Inr [with_score ''B'' (JFloat (Float (181 / 2))), scored ''A'' 40,
            with_score ''C'' (JFloat (Float 40))] \<and>
   sorted_wrt score_ge [with_score ''B'' (JFloat (Float (181 / 2))), scored ''A'' 40,
                        with_score ''C'' (JFloat (Float 40))]\<close>
proof -
  have h: \<open>match_resume_to_jobs (answering three_answers) [titled ''A'', titled ''B'', titled ''C'']
     = Inr [with_score ''B'' (JFloat (Float (181 / 2))), scored ''A'' 40,
            with_score ''C'' (JFloat (Float 40))]\<close>
    by code_simp
  have p: \<open>parse_resume_from_file (answering three_answers)
     = Inr (JObj [(''Full Name'', JStr ''Jane Doe'')])\<close>
    by code_simp
  have e: "py_contains ''error'' (JObj [(''Full Name'', JStr ''Jane Doe'')]) = Inr False"
    by code_simp
  have m: \<open>match_loop (answering three_answers) 0 [titled ''A'', titled ''B'', titled ''C''] []
     = Inr [scored ''A'' 40, with_score ''B'' (JFloat (Float (181 / 2))),
            with_score ''C'' (JFloat (Float 40))]\<close>
    by code_simp
  have n: "list_all has_number [scored ''A'' 40, with_score ''B'' (JFloat (Float (181 / 2))),
            with_score ''C'' (JFloat (Float 40))]"
    by code_simp
  from match_resume_to_jobs_ranked[THEN conjunct1, rule_format, OF conjI[OF p conjI[OF e conjI[OF m n]]]]
  obtain out where
    "match_resume_to_jobs (answering three_answers) [titled ''A'', titled ''B'', titled ''C'']
       = Inr out" and "sorted_wrt score_ge out"
    by blast
  with h show ?thesis by simp
qed

text \<open>
  C7 fails as stated where a score is NaN, which \<open>json.loads\<close> accepts: for the answers NaN
  and 90 the one comparison of the sort, NaN \<open><\<close> 90, is false, so A stays before B, and
  NaN \<open>>=\<close> 90 is false too.
\<close>

theorem match_resume_to_jobs_ranked_counterexample:
  \<open>match_resume_to_jobs (answering [''{"match_score": NaN}'', ''{"match_score": 90}''])
      [titled ''A'', titled ''B'']
     = Inr [with_score ''A'' (JFloat NaN), scored ''B'' 90] \<and>
   score_key (with_score ''A'' (JFloat NaN)) = Inr (JFloat NaN) \<and>
   score_key (scored ''B'' 90) = Inr (JInt 90) \<and>
   py_ge (JFloat NaN) (JInt 90) = Inr False \<and>
   sorted_wrt score_ge [with_score ''A'' (JFloat NaN), scored ''B'' 90] = False\<close>
  by code_simp

text \<open>
  A score that is a string beside one that is an integer: the comparison of the sort raises
  \<open>TypeError\<close>, and no list is returned.
\<close>

lemma match_resume_to_jobs_mixed_scores:
  \<open>match_resume_to_jobs (answering [''{"match_score": "85"}'', ''{"match_score": 90}''])
      [titled ''A'', titled ''B''] = Inl TypeError\<close>
  by code_simp

text \<open>
  \<open>match_resume_to_jobs\<close> returns a ranked list of all the jobs when the resume parses, the
  jobs are dicts, and each call of the model raises or is sanitized to a dict whose
  \<open>match_score\<close>, where present, is a number other than NaN.
\<close>

lemma score_key_with_details:
  "score_key (JObj (dict_set ''match_details'' md d)) = py_get md ''match_score'' (JInt 0)"
  by (simp add: score_key_def map_of_dict_set)

lemma match_job_returns:
  assumes "(\<exists>m. llm w i = Raises m) \<or>
           (\<exists>r md. llm w i = Returns r \<and> clean_json_response (w_loads w) r = JObj md \<and>
                   (\<forall>v. map_of md ''match_score'' = Some v \<longrightarrow> num_key v \<noteq> None))"
  shows "\<exists>mj k n. match_job w i (JObj d) = Inr mj \<and> score_key mj = Inr k \<and> num_key k = Some n"
  using assms
proof
  assume "\<exists>m. llm w i = Raises m"
  then obtain m where "llm w i = Raises m" by blast
  then have "match_job w i (JObj d) = Inr (JObj (dict_set ''match_details'' (placeholder_error m) d))"
    by (simp add: match_job_def try_match_def)
  moreover have "score_key (JObj (dict_set ''match_details'' (placeholder_error m) d)) = Inr (JInt 0)"
    by (simp add: score_key_with_details placeholder_error_def)
  ultimately show ?thesis by simp
next
  assume "\<exists>r md. llm w i = Returns r \<and> clean_json_response (w_loads w) r = JObj md \<and>
                   (\<forall>v. map_of md ''match_score'' = Some v \<longrightarrow> num_key v \<noteq> None)"
  then obtain r md where r: "llm w i = Returns r" "clean_json_response (w_loads w) r = JObj md"
    and sc: "\<forall>v. map_of md ''match_score'' = Some v \<longrightarrow> num_key v \<noteq> None" by blast
  show ?thesis
  proof (cases "md = []")
    case True
    then have "match_job w i (JObj d) = Inr (JObj (dict_set ''match_details'' placeholder_no_data d))"
      using r by (simp add: match_job_def try_match_def)
    moreover have "score_key (JObj (dict_set ''match_details'' placeholder_no_data d)) = Inr (JInt 0)"
      by (simp add: score_key_with_details placeholder_no_data_def)
    ultimately show ?thesis by simp
  next
    case False
    then have m: "match_job w i (JObj d) = Inr (JObj (dict_set ''match_details'' (JObj md) d))"
      using r by (simp add: match_job_def try_match_def)
    have "\<exists>k n. py_get (JObj md) ''match_score'' (JInt 0) = Inr k \<and> num_key k = Some n"
      using sc by (cases "map_of md ''match_score''") auto
    then show ?thesis using m by (simp add: score_key_with_details)
  qed
qed

lemma match_loop_returns:
  assumes "\<forall>n<length jobs. \<exists>d. jobs ! n = JObj d \<and>
             ((\<exists>m. llm w (i + n) = Raises m) \<or>
              (\<exists>r md. llm w (i + n) = Returns r \<and> clean_json_response (w_loads w) r = JObj md \<and>
                      (\<forall>v. map_of md ''match_score'' = Some v \<longrightarrow> num_key v \<noteq> None)))"
    and "\<forall>x\<in>set acc. \<exists>k n. score_key x = Inr k \<and> num_key k = Some n"
  shows "\<exists>matched. match_loop w i jobs acc = Inr matched \<and>
           (\<forall>x\<in>set matched. \<exists>k n. score_key x = Inr k \<and> num_key k = Some n)"
  using assms
proof (induction jobs arbitrary: i acc)
  case Nil then show ?case by simp
next
  case (Cons job jobs)
  from Cons.prems(1)[rule_format, of 0] obtain d where d: "job = JObj d"
    and l: "(\<exists>m. llm w i = Raises m) \<or>
            (\<exists>r md. llm w i = Returns r \<and> clean_json_response (w_loads w) r = JObj md \<and>
                    (\<forall>v. map_of md ''match_score'' = Some v \<longrightarrow> num_key v \<noteq> None))"
    by auto
  from match_job_returns[OF l, of d] obtain mj k n where
    mj: "match_job w i job = Inr mj" "score_key mj = Inr k" "num_key k = Some n"
    using d by blast
  have p1: "\<forall>n<length jobs. \<exists>d. jobs ! n = JObj d \<and>
             ((\<exists>m. llm w (Suc i + n) = Raises m) \<or>
              (\<exists>r md. llm w (Suc i + n) = Returns r \<and> clean_json_response (w_loads w) r = JObj md \<and>
                      (\<forall>v. map_of md ''match_score'' = Some v \<longrightarrow> num_key v \<noteq> None)))"
  proof (intro allI impI)
    fix n assume "n < length jobs"
    then have "Suc n < length (job # jobs)" by simp
    from Cons.prems(1)[rule_format, OF this] show "\<exists>d. jobs ! n = JObj d \<and>
             ((\<exists>m. llm w (Suc i + n) = Raises m) \<or>
              (\<exists>r md. llm w (Suc i + n) = Returns r \<and> clean_json_response (w_loads w) r = JObj md \<and>
                      (\<forall>v. map_of md ''match_score'' = Some v \<longrightarrow> num_key v \<noteq> None)))"
      by simp
  qed
  have p2: "\<forall>x\<in>set (acc @ [mj]). \<exists>k n. score_key x = Inr k \<and> num_key k = Some n"
    using Cons.prems(2) mj by auto
  from Cons.IH[OF p1 p2] show ?case using mj(1) by simp
qed

lemma match_resume_to_jobs_returns:
  assumes "parse_resume_from_file w = Inr resume_data"
    and "py_contains ''error'' resume_data = Inr False"
    and "\<forall>n<length jobs. \<exists>d. jobs ! n = JObj d \<and>
             ((\<exists>m. llm w n = Raises m) \<or>
              (\<exists>r md. llm w n = Returns r \<and> clean_json_response (w_loads w) r = JObj md \<and>
                      (\<forall>v. map_of md ''match_score'' = Some v \<longrightarrow> num_key v \<noteq> None)))"
  shows "\<exists>out. match_resume_to_jobs w jobs = Inr out \<and> length out = length jobs \<and>
           sorted_wrt score_ge out"
proof -
  have "\<exists>matched. match_loop w 0 jobs [] = Inr matched \<and>
           (\<forall>x\<in>set matched. \<exists>k n. score_key x = Inr k \<and> num_key k = Some n)"
    using assms(3) by (intro match_loop_returns) simp_all
  then obtain matched where m: "match_loop w 0 jobs [] = Inr matched"
    and k: "\<forall>x\<in>set matched. \<exists>k n. score_key x = Inr k \<and> num_key k = Some n" by blast
  from k have "list_all has_number matched" by (auto simp: list_all_iff has_number_def)
  from sort_by_score_desc_ranked[OF this] obtain out where
    o: "sort_by_score_desc matched = Inr out" "mset out = mset matched" "sorted_wrt score_ge out"
    by blast
  have "length out = length matched" using o(2) by (rule mset_eq_length)
  moreover have "length matched = length jobs" using match_loop_Inr[OF m] by simp
  ultimately show ?thesis using assms(1,2) m o by (simp add: match_resume_to_jobs_def)
qed

section \<open>Properties of the upload view\<close>

lemma match_resume_to_jobs_parse_error:
  "parse_resume_from_file w = Inr resume_data \<Longrightarrow> py_contains ''error'' resume_data = Inr True \<Longrightarrow>
   match_resume_to_jobs w jobs = Inr []"
  by (simp add: match_resume_to_jobs_def)

lemma parse_resume_no_text:
  "saved w \<Longrightarrow> pdf_text w = None \<or> pdf_text w = Some [] \<Longrightarrow>
   parse_resume_from_file w = Inr (JObj [(''error'', JStr ''Failed to extract text from PDF'')])"
  by (auto simp: parse_resume_from_file_def)

lemma parse_resume_model_error:
  "saved w \<Longrightarrow> pdf_text w = Some t \<Longrightarrow> t \<noteq> [] \<Longrightarrow> gemini w t = CallRaises m \<Longrightarrow>
   parse_resume_from_file w = Inr (JObj [(''error'', JStr m), (''raw_response'', JNull)])"
  by (simp add: parse_resume_from_file_def ats_extractor_def)

text \<open>
  A parse that returns data containing \<open>error\<close> returns a dict with that key: for any other
  container the subscript \<open>prased_data['error']\<close> raises.
\<close>

lemma parse_resume_error_reported:
  assumes "parse_resume_from_file w = Inr resume_data"
    and "py_contains ''error'' resume_data = Inr True"
  shows "\<exists>d v. resume_data = JObj d \<and> map_of d ''error'' = Some v"
proof (cases "saved w \<and> pdf_text w \<noteq> None \<and> pdf_text w \<noteq> Some []")
  case False
  then have "resume_data = JObj [(''error'', JStr ''Failed to save file'')] \<or>
             resume_data = JObj [(''error'', JStr ''Failed to extract text from PDF'')]"
    using assms(1) by (auto simp: parse_resume_from_file_def split: option.splits if_splits)
  then show ?thesis by auto
next
  case True
  then obtain t where t: "pdf_text w = Some t" "t \<noteq> []" "saved w" by auto
  from assms(1) t obtain p where p: "ats_extractor w t = Inr p"
    by (auto simp: parse_resume_from_file_def split: sum.splits)
  from assms(1) t p obtain found where f: "py_contains ''error'' p = Inr found"
    by (auto simp: parse_resume_from_file_def split: sum.splits)
  show ?thesis
  proof (cases found)
    case False
    then have "resume_data = p" using assms(1) t p f by (simp add: parse_resume_from_file_def)
    then show ?thesis using assms(2) f False by simp
  next
    case True
    then obtain v where v: "py_item p ''error'' = Inr v" and r: "resume_data = p"
      using assms(1) t p f by (auto simp: parse_resume_from_file_def split: sum.splits)
    from v show ?thesis unfolding r by (cases p) (auto split: option.splits)
  qed
qed

text \<open>
  Where the hosted model answers with a JSON string that contains \<open>error\<close>, the subscript
  raises \<open>TypeError\<close>; where reading \<open>response.text\<close> raises, the exception leaves
  \<open>ats_extractor\<close>. In both runs the view flashes the error and leaves the earlier result
  file as it was.
\<close>

lemma parse_resume_error_text:
  \<open>parse_resume_from_file (listing_world\<lparr>gemini := (\<lambda>t. Text ''"no error found"'')\<rparr>)
     = Inl TypeError \<and>
   upload (listing_world\<lparr>gemini := (\<lambda>t. Text ''"no error found"'')\<rparr>) engineer_request
       earlier_results
     = Inr (UploadForm,
            \<lparr>output_file = Some [pokhara_job], uploaded = False,
             flashes = [ErrorProcessingResume TypeError]\<rparr>)\<close>
  by code_simp

lemma parse_resume_text_raises:
  \<open>parse_resume_from_file (listing_world\<lparr>gemini := (\<lambda>t. TextRaises ''blocked'')\<rparr>)
     = Inl (Raised ''blocked'') \<and>
   upload (listing_world\<lparr>gemini := (\<lambda>t. TextRaises ''blocked'')\<rparr>) engineer_request
       earlier_results
     = Inr (UploadForm,
            \<lparr>output_file = Some [pokhara_job], uploaded = False,
             flashes = [ErrorProcessingResume (Raised ''blocked'')]\<rparr>)\<close>
  by code_simp

lemma filter_jobs_length: "filter_jobs repr jobs l k = Inr out \<Longrightarrow> length out \<le> 5"
  by (auto simp: filter_jobs_def split: sum.splits)

text \<open>
  C1 (amended). When the resume parse reports an error, \<open>match_resume_to_jobs\<close> returns the
  empty list; the view \<open>upload\<close>, for a request that passes its checks and whose filtered
  jobs are not empty, then takes the filtered jobs for the result: it writes them to the
  result file, removes the upload, flashes the success message and redirects to the results.
\<close>

theorem upload_resume_parse_error:
  assumes "parse_resume_from_file w = Inr resume_data"
    and "py_contains ''error'' resume_data = Inr True"
    and "has_resume_part req" and "filename req \<noteq> []" and "allowed_file (filename req)"
    and "scrape_job_listings w 0
           [search_url (lower (strip (form_location req))) (lower (strip (form_job_preference req)))] []
         = Inr job_listings"
    and "filter_jobs (w_repr w) job_listings (lower (strip (form_location req)))
           (lower (strip (form_job_preference req))) = Inr filtered_jobs"
    and "filtered_jobs \<noteq> []"
  shows "match_resume_to_jobs w filtered_jobs = Inr [] \<and>
         upload w req s =
           Inr (ResultsView,
                s\<lparr>uploaded := False, output_file := Some filtered_jobs,
                  flashes := flashes s @ [ProcessedSuccessfully]\<rparr>)"
proof -
  have m: "match_resume_to_jobs w filtered_jobs = Inr []"
    using assms(1,2) by (rule match_resume_to_jobs_parse_error)
  have t: "take 5 filtered_jobs = filtered_jobs"
    using filter_jobs_length[OF assms(7)] by simp
  have "upload_try w (lower (strip (form_location req))) (lower (strip (form_job_preference req)))
          (s\<lparr>uploaded := True\<rparr>)
        = Inr (ResultsView,
               s\<lparr>uploaded := False, output_file := Some filtered_jobs,
                 flashes := flashes s @ [ProcessedSuccessfully]\<rparr>)"
    using assms(6,7,8) m t by (simp add: upload_try_def)
  then show ?thesis using m assms(3,4,5) by (simp add: upload_def Let_def)
qed


text \<open>
  The amended C1 where the hosted model raises: the match list is empty, and the view
  writes the filtered job over the earlier result file and flashes success.
\<close>

theorem upload_resume_parse_error_witness:
  "match_resume_to_jobs model_error_world [kathmandu_job] = Inr [] \<and>
   upload model_error_world engineer_request earlier_results =
     Inr (ResultsView,
          \<lparr>output_file = Some [kathmandu_job], uploaded = False,
           flashes = [ProcessedSuccessfully]\<rparr>)"
proof -
  have h1: "parse_resume_from_file model_error_world
              = Inr (JObj [(''error'', JStr ''quota exceeded''), (''raw_response'', JNull)])"
    by code_simp
  have h2: "py_contains ''error'' (JObj [(''error'', JStr ''quota exceeded''), (''raw_response'', JNull)])
              = Inr True"
    by simp
  have h3: "has_resume_part engineer_request" by (simp add: engineer_request_def)
  have h4: "filename engineer_request \<noteq> []" by (simp add: engineer_request_def)
  have h5: "allowed_file (filename engineer_request)" by code_simp
  have h6: "scrape_job_listings model_error_world 0
              [search_url (lower (strip (form_location engineer_request)))
                 (lower (strip (form_job_preference engineer_request)))] []
            = Inr [kathmandu_job]"
    by code_simp
  have h7: "filter_jobs (w_repr model_error_world) [kathmandu_job]
              (lower (strip (form_location engineer_request)))
              (lower (strip (form_job_preference engineer_request))) = Inr [kathmandu_job]"
    by code_simp
  have h8: "[kathmandu_job] \<noteq> []" by simp
  from upload_resume_parse_error[OF h1 h2 h3 h4 h5 h6 h7 h8, of earlier_results]
  show ?thesis by (simp add: earlier_results_def)
qed

text \<open>
  C1 as stated fails in its second half: for a resume without extractable text the parse
  reports an error, yet the view redirects to the results, flashes success only and has
  overwritten the earlier result file with the filtered job.
\<close>

theorem upload_resume_parse_error_counterexample:
  "parse_resume_from_file no_text_world
     = Inr (JObj [(''error'', JStr ''Failed to extract text from PDF'')]) \<and>
   upload no_text_world engineer_request earlier_results =
     Inr (ResultsView,
          \<lparr>output_file = Some [kathmandu_job], uploaded = False,
           flashes = [ProcessedSuccessfully]\<rparr>) \<and>
   \<not> is_failure ProcessedSuccessfully \<and>
   output_file earlier_results \<noteq> Some [kathmandu_job]"
  by code_simp

end
